theory Spec2Isabelle
  imports Main "HOL-Library.Multiset" "HOL-Library.Sublist"
begin

section \<open>Data model of the Tetonor solver\<close>

text \<open>
  The solver class \<open>TetonorSolver\<close> works on plain JavaScript values. Grid numbers, pair
  members, strip values, the attempt counter and the budget are integers (\<open>int\<close>; the
  source's numbers are exact on integers of the size a puzzle has); a hidden strip slot is
  \<open>null\<close> (\<open>None\<close>). A use is the object \<open>{mult: {value, index}, add: {value, index}}\<close>, a candidate
  is \<open>{pair: [a, b], uses: [...]}\<close>, and an assigned grid cell is \<open>{num1, op, num2}\<close> with
  \<open>op\<close> one of the two operator strings.
\<close>

record cell_ref =
  cell_value :: int
  cell_index :: nat

record use =
  mult :: cell_ref
  add :: cell_ref

record candidate =
  pair :: "int \<times> int"
  uses :: "use list"

datatype operator = Plus | Times

record equation =
  num1 :: int
  op :: operator
  num2 :: int

type_synonym grid_assignment = "equation option list"

text \<open>
  The object stored in \<open>solution\<close> by \<open>findOptimalCombination\<close>. Its field \<open>pairs\<close> is
  a reference to the mutable array \<open>currentCombo\<close> and is not read by \<open>solve\<close>; it is left
  out of the record.
\<close>

record found =
  found_strip :: "int list"
  found_grid :: grid_assignment
  found_tested :: int

text \<open>The object \<open>{strip, grid}\<close> returned by \<open>solve\<close>; \<open>null\<close> is \<open>None\<close>.\<close>

record solution =
  strip :: "int list"
  grid :: grid_assignment

text \<open>
  The two variables \<open>tested\<close> and \<open>solution\<close> that the closure \<open>backtrack\<close> mutates
  (\<open>solution_of\<close> is the variable \<open>solution\<close>).
\<close>

record search_state =
  tested :: int
  solution_of :: "found option"

section \<open>Candidate extractor\<close>

text \<open>
  \<open>getDivisorPairs(n)\<close>: the loop \<open>for (let i = 1; i <= Math.sqrt(n); i++)\<close>. For an
  integer \<open>i \<ge> 1\<close> the test \<open>i <= Math.sqrt(n)\<close> is \<open>i * i \<le> n\<close>; for negative \<open>n\<close> the
  square root is \<open>NaN\<close> and the comparison is false, as \<open>i * i \<le> n\<close> is. Inside the loop
  \<open>n\<close> is positive, so \<open>n % i\<close> is \<open>n mod i\<close> and \<open>n / i\<close> is exact when the remainder is 0.
  \<open>[i, n / i].sort((a, b) => a - b)\<close> orders the two numbers.
\<close>

definition sort_pair :: "int \<Rightarrow> int \<Rightarrow> int \<times> int" where
  "sort_pair x y = (if y < x then (y, x) else (x, y))"

function divisor_loop :: "int \<Rightarrow> int \<Rightarrow> (int \<times> int) list" where
  "divisor_loop n i =
     (if 1 \<le> i \<and> i * i \<le> n
      then (if n mod i = 0 then [sort_pair i (n div i)] else []) @ divisor_loop n (i + 1)
      else [])"
  by pat_completeness auto
termination
proof (relation "measure (\<lambda>(n, i). nat (n + 1 - i))")
  show "wf (measure (\<lambda>(n, i). nat (n + 1 - i)))" by simp
next
  fix n i :: int
  assume a: "1 \<le> i \<and> i * i \<le> n"
  then have "i * 1 \<le> i * i" by (intro mult_left_mono) auto
  then have "i \<le> i * i" by simp
  with a have "i \<le> n" by linarith
  then show "((n, i + 1), (n, i)) \<in> measure (\<lambda>(n, i). nat (n + 1 - i))" by simp
qed

declare divisor_loop.simps [simp del]

definition getDivisorPairs :: "int \<Rightarrow> (int \<times> int) list" where
  "getDivisorPairs n = divisor_loop n 1"

text \<open>
  \<open>pairMap\<close> is a JavaScript \<open>Map\<close> keyed by the string \<open>`${a},${b}`\<close>, which determines
  \<open>(a, b)\<close>; \<open>Array.from(pairMap.values())\<close> lists the entries in insertion order. It is
  the list of entries in that order. \<open>record_use\<close> is the body of \<open>if (a + b === addNum)\<close>:
  create the entry if the key is new, then push the use onto the entry's \<open>uses\<close>.
\<close>

fun record_use :: "int \<times> int \<Rightarrow> use \<Rightarrow> candidate list \<Rightarrow> candidate list" where
  "record_use k u [] = [\<lparr>pair = k, uses = [u]\<rparr>]"
| "record_use k u (c # cs) =
     (if pair c = k then c\<lparr>uses := uses c @ [u]\<rparr> # cs else c # record_use k u cs)"

definition make_use :: "int list \<Rightarrow> nat \<Rightarrow> nat \<Rightarrow> use" where
  "make_use gridNumbers i j =
     \<lparr>mult = \<lparr>cell_value = gridNumbers ! i, cell_index = i\<rparr>,
      add = \<lparr>cell_value = gridNumbers ! j, cell_index = j\<rparr>\<rparr>"

definition pair_step :: "int list \<Rightarrow> nat \<Rightarrow> nat \<Rightarrow> candidate list \<Rightarrow> int \<times> int \<Rightarrow> candidate list" where
  "pair_step gridNumbers i j pairMap multPair =
     (if fst multPair + snd multPair = gridNumbers ! j
      then record_use multPair (make_use gridNumbers i j) pairMap
      else pairMap)"

definition add_step :: "int list \<Rightarrow> nat \<Rightarrow> (int \<times> int) list \<Rightarrow> candidate list \<Rightarrow> nat \<Rightarrow> candidate list" where
  "add_step gridNumbers i multPairs pairMap j =
     (if i = j then pairMap else foldl (pair_step gridNumbers i j) pairMap multPairs)"

definition mult_step :: "int list \<Rightarrow> candidate list \<Rightarrow> nat \<Rightarrow> candidate list" where
  "mult_step gridNumbers pairMap i =
     foldl (add_step gridNumbers i (getDivisorPairs (gridNumbers ! i))) pairMap
       [0..<length gridNumbers]"

definition findConsistentPairs :: "int list \<Rightarrow> candidate list" where
  "findConsistentPairs gridNumbers = foldl (mult_step gridNumbers) [] [0..<length gridNumbers]"

section \<open>Strip utilities\<close>

definition buildStripFromPairs :: "candidate list \<Rightarrow> int list" where
  "buildStripFromPairs pairs = sort (concat (map (\<lambda>p. [fst (pair p), snd (pair p)]) pairs))"

fun matches_from :: "int list \<Rightarrow> int option list \<Rightarrow> bool" where
  "matches_from (x # xs) (k # ks) = (if k \<noteq> None \<and> k \<noteq> Some x then False else matches_from xs ks)"
| "matches_from _ _ = True"

definition matchesKnownValues :: "int list \<Rightarrow> int option list \<Rightarrow> bool" where
  "matchesKnownValues strp knownStrip =
     (if length strp \<noteq> length knownStrip then False else matches_from strp knownStrip)"

section \<open>Grid assignment\<close>

text \<open>
  \<open>findGridAssignment(pairs, grid, pairIdx)\<close>. The cursor \<open>pairIdx\<close> only ever moves from 0
  to \<open>pairs.length\<close> in steps of one, so the function is written over the remaining
  suffix \<open>pairs.slice(pairIdx)\<close>: the empty suffix is \<open>pairIdx === pairs.length\<close>.
  \<open>try_uses\<close> is the loop \<open>for (const use of p.uses)\<close> and \<open>use_fits\<close> the condition of
  its \<open>if\<close>. The grid is an array of 16 cells;
  reading an index past its end gives \<open>undefined\<close>, which is not \<open>=== null\<close>, so such a use
  is passed over and no write ever extends the array.
\<close>

definition cell_free :: "grid_assignment \<Rightarrow> nat \<Rightarrow> bool" where
  "cell_free g i = (i < length g \<and> g ! i = None)"

definition use_fits :: "grid_assignment \<Rightarrow> use \<Rightarrow> bool" where
  "use_fits g u =
     (cell_free g (cell_index (add u)) \<and> cell_free g (cell_index (mult u))
        \<and> cell_index (add u) \<noteq> cell_index (mult u))"

definition place :: "grid_assignment \<Rightarrow> int \<times> int \<Rightarrow> use \<Rightarrow> grid_assignment" where
  "place g ab u =
     (g[cell_index (add u) := Some \<lparr>num1 = fst ab, op = Plus, num2 = snd ab\<rparr>])
       [cell_index (mult u) := Some \<lparr>num1 = fst ab, op = Times, num2 = snd ab\<rparr>]"

fun findGridAssignment :: "candidate list \<Rightarrow> grid_assignment \<Rightarrow> grid_assignment option"
  and try_uses :: "int \<times> int \<Rightarrow> use list \<Rightarrow> candidate list \<Rightarrow> grid_assignment \<Rightarrow> grid_assignment option"
where
  "findGridAssignment [] g = Some g"
| "findGridAssignment (p # ps) g = try_uses (pair p) (uses p) ps g"
| "try_uses ab [] ps g = None"
| "try_uses ab (u # us) ps g =
     (if use_fits g u
      then (case findGridAssignment ps (place g ab u) of
              Some result \<Rightarrow> Some result
            | None \<Rightarrow> try_uses ab us ps g)
      else try_uses ab us ps g)"

section \<open>Combination search\<close>

text \<open>
  The closure \<open>backtrack(pairIdx, currentCombo, usedIndices, currentCounts)\<close>. The cursor is
  again the remaining suffix \<open>allPairs.slice(pairIdx)\<close>, and \<open>backtrack_loop\<close> is the
  \<open>for (let i = pairIdx; ...)\<close> loop, whose recursive call \<open>backtrack(i + 1, ...)\<close> gets the
  suffix after the chosen candidate. \<open>currentCounts\<close>, \<open>knownCounts\<close>, \<open>countA\<close> and
  \<open>countB\<close> are computed by the source and never read by any test, so they are not part of
  the state. \<open>tested\<close> and \<open>solution\<close> are threaded through as a \<open>search_state\<close>;
  \<open>search\<close> is the state in which the call \<open>backtrack(0, [], new Set(), new Map())\<close>
  leaves them, and \<open>findOptimalCombination\<close> returns its \<open>solution\<close>.
\<close>

definition available_use :: "nat set \<Rightarrow> use list \<Rightarrow> use option" where
  "available_use usedIndices us =
     find (\<lambda>u. cell_index (add u) \<notin> usedIndices \<and> cell_index (mult u) \<notin> usedIndices) us"

definition check_combo :: "int option list \<Rightarrow> candidate list \<Rightarrow> search_state \<Rightarrow> search_state" where
  "check_combo stripValues currentCombo st =
     (let t = tested st + 1;
          strp = buildStripFromPairs currentCombo
      in if matchesKnownValues strp stripValues
         then (case findGridAssignment currentCombo (replicate 16 None) of
                 Some assignment \<Rightarrow>
                   \<lparr>tested = t,
                    solution_of = Some \<lparr>found_strip = strp, found_grid = assignment, found_tested = t\<rparr>\<rparr>
               | None \<Rightarrow> st\<lparr>tested := t\<rparr>)
         else st\<lparr>tested := t\<rparr>)"

fun backtrack :: "int option list \<Rightarrow> int \<Rightarrow> candidate list \<Rightarrow> candidate list \<Rightarrow> nat set
                    \<Rightarrow> search_state \<Rightarrow> search_state"
  and backtrack_loop :: "int option list \<Rightarrow> int \<Rightarrow> candidate list \<Rightarrow> candidate list \<Rightarrow> nat set
                    \<Rightarrow> search_state \<Rightarrow> search_state"
where
  "backtrack stripValues maxAttempts rest currentCombo usedIndices st =
     (if solution_of st \<noteq> None \<or> tested st > maxAttempts then st
      else if length currentCombo = 8 then check_combo stripValues currentCombo st
      else backtrack_loop stripValues maxAttempts rest currentCombo usedIndices st)"
| "backtrack_loop stripValues maxAttempts [] currentCombo usedIndices st = st"
| "backtrack_loop stripValues maxAttempts (p # rest) currentCombo usedIndices st =
     (if solution_of st \<noteq> None then st
      else (case available_use usedIndices (uses p) of
              Some availableUse \<Rightarrow>
                backtrack_loop stripValues maxAttempts rest currentCombo usedIndices
                  (backtrack stripValues maxAttempts rest (currentCombo @ [p])
                     (insert (cell_index (mult availableUse))
                        (insert (cell_index (add availableUse)) usedIndices)) st)
            | None \<Rightarrow> backtrack_loop stripValues maxAttempts rest currentCombo usedIndices st))"

declare backtrack.simps [simp del]

definition search :: "candidate list \<Rightarrow> int option list \<Rightarrow> int \<Rightarrow> search_state" where
  "search allPairs stripValues maxAttempts =
     backtrack stripValues maxAttempts allPairs [] {} \<lparr>tested = 0, solution_of = None\<rparr>"

definition findOptimalCombination :: "candidate list \<Rightarrow> int option list \<Rightarrow> int \<Rightarrow> found option" where
  "findOptimalCombination allPairs stripValues maxAttempts =
     solution_of (search allPairs stripValues maxAttempts)"

definition solve :: "int list \<Rightarrow> int option list \<Rightarrow> int \<Rightarrow> solution option" where
  "solve gridNumbers stripValues maxAttempts =
     (case findOptimalCombination (findConsistentPairs gridNumbers) stripValues maxAttempts of
        Some s \<Rightarrow> Some \<lparr>strip = found_strip s, grid = found_grid s\<rparr>
      | None \<Rightarrow> None)"

section \<open>Auxiliary notions for the proofs\<close>

subsection \<open>What the extractor records\<close>

text \<open>
  \<open>uses_of cs k\<close> is what \<open>pairMap.get(key).uses\<close> holds for the key \<open>k\<close> (empty if the
  key is absent). \<open>extracted_uses g k\<close> is the set of uses the three nested loops of
  \<open>findConsistentPairs\<close> push for \<open>k\<close>. \<open>well_keyed\<close> says that no key occurs twice and no
  entry has an empty \<open>uses\<close> array. \<open>use_ok g ab u\<close> says that the use \<open>u\<close> names two
  different cells of the grid \<open>g\<close>, its \<open>mult\<close> cell holding the product and its \<open>add\<close>
  cell the sum of the pair \<open>ab\<close>; \<open>candidate_ok\<close> says so of every use of a candidate,
  and that its pair is ordered and positive.
\<close>

definition uses_of :: "candidate list \<Rightarrow> int \<times> int \<Rightarrow> use list" where
  "uses_of cs k = concat (map uses (filter (\<lambda>c. pair c = k) cs))"

definition extracted_uses :: "int list \<Rightarrow> int \<times> int \<Rightarrow> use set" where
  "extracted_uses g k =
     {make_use g i j | i j. i < length g \<and> j < length g \<and> i \<noteq> j
        \<and> k \<in> set (getDivisorPairs (g ! i)) \<and> fst k + snd k = g ! j}"

definition well_keyed :: "candidate list \<Rightarrow> bool" where
  "well_keyed cs = (distinct (map pair cs) \<and> (\<forall>c\<in>set cs. uses c \<noteq> []))"

definition use_ok :: "int list \<Rightarrow> int \<times> int \<Rightarrow> use \<Rightarrow> bool" where
  "use_ok g ab u =
     (cell_index (mult u) < length g \<and> cell_index (add u) < length g \<and>
      g ! cell_index (mult u) = fst ab * snd ab \<and>
      g ! cell_index (add u) = fst ab + snd ab \<and>
      cell_index (add u) \<noteq> cell_index (mult u))"

definition candidate_ok :: "int list \<Rightarrow> candidate \<Rightarrow> bool" where
  "candidate_ok g c =
     (1 \<le> fst (pair c) \<and> fst (pair c) \<le> snd (pair c) \<and> (\<forall>u\<in>set (uses c). use_ok g (pair c) u))"

subsection \<open>Cells of a grid assignment\<close>

text \<open>
  \<open>plus_cell ab\<close> and \<open>times_cell ab\<close> are the two objects \<open>findGridAssignment\<close> writes for
  a pair, \<open>combo_cells\<close> lists them for a whole combination, \<open>cell_op\<close> reads the operator
  of a cell (\<open>None\<close> for a \<open>null\<close> cell) and \<open>assigned\<close> keeps the cells that are not
  \<open>null\<close>. \<open>cell_consistent gn i c\<close> says that the equation in cell \<open>i\<close>, if there is one,
  evaluates to the grid number \<open>gn ! i\<close>.
\<close>

definition plus_cell :: "int \<times> int \<Rightarrow> equation option" where
  "plus_cell ab = Some \<lparr>num1 = fst ab, op = Plus, num2 = snd ab\<rparr>"

definition times_cell :: "int \<times> int \<Rightarrow> equation option" where
  "times_cell ab = Some \<lparr>num1 = fst ab, op = Times, num2 = snd ab\<rparr>"

definition combo_cells :: "candidate list \<Rightarrow> equation option list" where
  "combo_cells ps = concat (map (\<lambda>p. [plus_cell (pair p), times_cell (pair p)]) ps)"

definition cell_op :: "equation option \<Rightarrow> operator option" where
  "cell_op c = map_option op c"

definition assigned :: "grid_assignment \<Rightarrow> equation option list" where
  "assigned g = filter (\<lambda>e. e \<noteq> None) g"

definition cell_consistent :: "int list \<Rightarrow> nat \<Rightarrow> equation option \<Rightarrow> bool" where
  "cell_consistent gn i c =
     (case c of None \<Rightarrow> True
      | Some e \<Rightarrow> i < length gn \<and>
          (case op e of Plus \<Rightarrow> num1 e + num2 e = gn ! i | Times \<Rightarrow> num1 e * num2 e = gn ! i))"

definition cells_consistent :: "int list \<Rightarrow> grid_assignment \<Rightarrow> bool" where
  "cells_consistent gn r = (\<forall>i<length r. cell_consistent gn i (r ! i))"

subsection \<open>Search states\<close>

text \<open>
  \<open>verified A stripValues f\<close>: the stored solution \<open>f\<close> comes from 8 candidates of \<open>A\<close>
  whose built strip matches the known strip values and whose grid assignment succeeded.
  \<open>over_budget m st\<close>: a state without a solution whose counter has passed the budget
  \<open>m\<close>; \<open>finished m st\<close>: a state in which \<open>backtrack\<close> returns at once. \<open>nodes n k\<close>
  bounds the number of depth-8 nodes below a search node that has chosen \<open>k\<close> pairs and
  still has \<open>n\<close> candidates to choose from.
\<close>

definition verified :: "candidate set \<Rightarrow> int option list \<Rightarrow> found \<Rightarrow> bool" where
  "verified A stripValues f =
     (\<exists>combo. length combo = 8 \<and> set combo \<subseteq> A \<and>
        found_strip f = buildStripFromPairs combo \<and>
        matchesKnownValues (found_strip f) stripValues \<and>
        findGridAssignment combo (replicate 16 None) = Some (found_grid f))"

definition state_verified :: "candidate set \<Rightarrow> int option list \<Rightarrow> search_state \<Rightarrow> bool" where
  "state_verified A stripValues st =
     (case solution_of st of None \<Rightarrow> True | Some f \<Rightarrow> verified A stripValues f)"

definition over_budget :: "int \<Rightarrow> search_state \<Rightarrow> bool" where
  "over_budget m st = (solution_of st = None \<and> tested st > m)"

definition finished :: "int \<Rightarrow> search_state \<Rightarrow> bool" where
  "finished m st = (solution_of st \<noteq> None \<or> tested st > m)"

definition nodes :: "nat \<Rightarrow> nat \<Rightarrow> nat" where
  "nodes n k = (if k \<le> 8 then n choose (8 - k) else 0)"

subsection \<open>Combinations that admit a grid assignment\<close>

text \<open>
  A combination admits a grid assignment when one recorded use can be chosen for each
  of its pairs so that the chosen \<open>add\<close> and \<open>mult\<close> indices are pairwise different cells
  of the 16-cell grid. \<open>use_indices\<close> lists the indices of a choice and \<open>valid_choice\<close>
  is the test. \<open>combo_values\<close> is the multiset of grid numbers a combination needs (a sum
  and a product per pair), and \<open>claimed\<close> relates the set \<open>usedIndices\<close> of a search node
  to the combination chosen so far: the claimed cells hold exactly the needed numbers.
\<close>

definition use_indices :: "use list \<Rightarrow> nat list" where
  "use_indices us = concat (map (\<lambda>u. [cell_index (add u), cell_index (mult u)]) us)"

definition valid_choice :: "candidate list \<Rightarrow> use list \<Rightarrow> bool" where
  "valid_choice combo us =
     (list_all2 (\<lambda>p u. u \<in> set (uses p)) combo us \<and> distinct (use_indices us) \<and>
      list_all (\<lambda>i. i < 16) (use_indices us))"

definition pair_values :: "candidate \<Rightarrow> int list" where
  "pair_values p = [fst (pair p) + snd (pair p), fst (pair p) * snd (pair p)]"

definition combo_values :: "candidate list \<Rightarrow> int multiset" where
  "combo_values ps = mset (concat (map pair_values ps))"

definition claimed :: "int list \<Rightarrow> candidate list \<Rightarrow> nat set \<Rightarrow> bool" where
  "claimed g combo used =
     (finite used \<and> used \<subseteq> {0..<length g} \<and>
      image_mset ((!) g) (mset_set used) = combo_values combo)"

subsection \<open>Concrete inputs\<close>

text \<open>
  \<open>sample_grid\<close> holds the sums and products of the pairs (2,3), (3,7), (4,9), (5,9),
  (6,11), (7,12), (8,15) and (10,17); the extractor also finds (1,5) and (1,13) in it, ten
  candidates in all. \<open>sample_solution\<close> is what the search returns for it when the whole
  strip is hidden (it uses (1,5) in place of (2,3)), \<open>sample_solution_two\<close> what it
  returns when the first strip slot is known to be 2.
\<close>

definition sample_grid :: "int list" where
  "sample_grid = [5, 6, 10, 21, 13, 36, 14, 45, 17, 66, 19, 84, 23, 120, 27, 170]"

definition hidden_strip :: "int option list" where
  "hidden_strip = replicate 16 None"

definition strip_two :: "int option list" where
  "strip_two = [Some 2, None, None, None, None, None, None, None,
                None, None, None, None, None, None, None, Some 17]"

definition strip_unmatched :: "int option list" where
  "strip_unmatched = [Some 99, None, None, None, None, None, None, None,
                      None, None, None, None, None, None, None, Some 17]"

definition sample_cells :: "(int \<times> int) list \<Rightarrow> grid_assignment" where
  "sample_cells prs = concat (map (\<lambda>ab. [plus_cell ab, times_cell ab]) prs)"

definition sample_solution :: solution where
  "sample_solution =
     \<lparr>strip = [1, 3, 4, 5, 5, 6, 7, 7, 8, 9, 9, 10, 11, 12, 15, 17],
      grid = [times_cell (1, 5), plus_cell (1, 5)] @
        sample_cells [(3, 7), (4, 9), (5, 9), (6, 11), (7, 12), (8, 15), (10, 17)]\<rparr>"

definition sample_solution_two :: solution where
  "sample_solution_two =
     \<lparr>strip = [2, 3, 3, 4, 5, 6, 7, 7, 8, 9, 9, 10, 11, 12, 15, 17],
      grid = sample_cells [(2, 3), (3, 7), (4, 9), (5, 9), (6, 11), (7, 12), (8, 15), (10, 17)]\<rparr>"

subsection \<open>The orders of search and extraction, as the specification words them\<close>

text \<open>
  The order of the search, in the words of the specification. \<open>combos k xs\<close> lists the
  \<open>k\<close>-element combinations of \<open>xs\<close> the way a strictly increasing cursor visits them.
  \<open>accepts\<close> is the test made on a full combination, \<open>solution_from\<close> the solution built
  from an accepted one, and \<open>first_solution\<close> the solution of the first accepted
  combination of 8 candidates, if there is one. \<open>outcome_of\<close> is what \<open>solve\<close> returns for
  a final search state.
\<close>

fun combos :: "nat \<Rightarrow> 'a list \<Rightarrow> 'a list list" where
  "combos 0 xs = [[]]"
| "combos (Suc k) [] = []"
| "combos (Suc k) (x # xs) = map ((#) x) (combos k xs) @ combos (Suc k) xs"

definition accepts :: "int option list \<Rightarrow> candidate list \<Rightarrow> bool" where
  "accepts stripValues c =
     (matchesKnownValues (buildStripFromPairs c) stripValues \<and>
      findGridAssignment c (replicate 16 None) \<noteq> None)"

definition solution_from :: "candidate list \<Rightarrow> solution option" where
  "solution_from c =
     map_option (\<lambda>a. \<lparr>strip = buildStripFromPairs c, grid = a\<rparr>)
       (findGridAssignment c (replicate 16 None))"

definition first_in :: "int option list \<Rightarrow> candidate list list \<Rightarrow> solution option" where
  "first_in stripValues cs =
     (case find (accepts stripValues) cs of None \<Rightarrow> None | Some c \<Rightarrow> solution_from c)"

definition first_solution :: "candidate list \<Rightarrow> int option list \<Rightarrow> solution option" where
  "first_solution allPairs stripValues = first_in stripValues (combos 8 allPairs)"

definition outcome_of :: "search_state \<Rightarrow> solution option" where
  "outcome_of st =
     map_option (\<lambda>f. \<lparr>strip = found_strip f, grid = found_grid f\<rparr>) (solution_of st)"

text \<open>
  The order of the extraction, in the words of the specification. \<open>extraction_events\<close>
  lists, in the order of the three nested loops (multiply cell \<open>i\<close>, add cell \<open>j \<noteq> i\<close>,
  divisor pair of \<open>grid[i]\<close>), every pair whose sum is \<open>grid[j]\<close> together with the use
  \<open>(add = j, mult = i)\<close>. \<open>group_events\<close> creates a candidate at the first encounter of a
  pair and appends the later uses to it: candidates stand in the order of their first
  event, and the uses of each in the order of its events.
\<close>

definition add_events :: "int list \<Rightarrow> nat \<Rightarrow> (int \<times> int) list \<Rightarrow> nat \<Rightarrow> ((int \<times> int) \<times> use) list" where
  "add_events g i mps j =
     (if i = j then []
      else map (\<lambda>k. (k, make_use g i j)) (filter (\<lambda>k. fst k + snd k = g ! j) mps))"

definition mult_events :: "int list \<Rightarrow> nat \<Rightarrow> ((int \<times> int) \<times> use) list" where
  "mult_events g i = concat (map (add_events g i (getDivisorPairs (g ! i))) [0..<length g])"

definition extraction_events :: "int list \<Rightarrow> ((int \<times> int) \<times> use) list" where
  "extraction_events g = concat (map (mult_events g) [0..<length g])"

definition keys_in_order :: "('k \<times> 'v) list \<Rightarrow> 'k list" where
  "keys_in_order es = rev (remdups (rev (map fst es)))"

definition entry_of :: "((int \<times> int) \<times> use) list \<Rightarrow> int \<times> int \<Rightarrow> candidate" where
  "entry_of es k = \<lparr>pair = k, uses = map snd (filter (\<lambda>e. fst e = k) es)\<rparr>"

definition group_events :: "((int \<times> int) \<times> use) list \<Rightarrow> candidate list" where
  "group_events es = map (entry_of es) (keys_in_order es)"

definition record_events :: "candidate list \<Rightarrow> ((int \<times> int) \<times> use) list \<Rightarrow> candidate list" where
  "record_events cs es = foldl (\<lambda>m e. record_use (fst e) (snd e) m) cs es"

subsection \<open>Verified solutions\<close>

text \<open>
  \<open>verified_solution g s sol\<close>: the solution \<open>sol\<close> is built from 8 candidates of the
  grid \<open>g\<close>, taken in candidate order, whose sorted numbers are its strip and match the
  known slots of \<open>s\<close>, which admit a choice of uses covering 16 different cells, and whose
  grid assignment is its grid.
\<close>

definition verified_solution :: "int list \<Rightarrow> int option list \<Rightarrow> solution \<Rightarrow> bool" where
  "verified_solution g s sol =
     (\<exists>combo chosen. subseq combo (findConsistentPairs g) \<and> length combo = 8 \<and>
        strip sol = buildStripFromPairs combo \<and> matchesKnownValues (strip sol) s \<and>
        valid_choice combo chosen \<and>
        findGridAssignment combo (replicate 16 None) = Some (grid sol))"

subsection \<open>The repository's own grid\<close>

text \<open>
  The grid and strip that the repository's own solver script carries. Three cells hold
  30, so the pairs (3,10), (6,24), (14,16) and (2,28) have three recorded uses each.
  \<open>repo_combo\<close> is the combination the strip asks for and \<open>repo_choice\<close> a choice of uses
  for it in which (6,24) takes its third use and (2,28) its second; \<open>repo_solution\<close> is
  what the search returns.
\<close>

definition repo_grid :: "int list" where
  "repo_grid = [252, 260, 13, 30, 25, 144, 36, 30, 48, 21, 40, 30, 224, 56, 46, 22]"

definition repo_strip :: "int option list" where
  "repo_strip = [Some 1, None, None, Some 5, Some 6, None, None, Some 10,
                 None, None, Some 21, Some 23, Some 24, None, Some 28, None]"

definition repo_combo :: "candidate list" where
  "repo_combo =
     filter (\<lambda>c. pair c \<in> set [(6, 42), (10, 26), (6, 24), (1, 21), (5, 8), (14, 16), (2, 28), (2, 23)])
       (findConsistentPairs repo_grid)"

definition repo_choice :: "use list" where
  "repo_choice =
     map (\<lambda>c. uses c ! (if pair c = (6, 24) then 2 else if pair c = (2, 28) then 1 else 0))
       repo_combo"

definition repo_solution :: solution where
  "repo_solution =
     \<lparr>strip = [1, 2, 2, 5, 6, 6, 8, 10, 14, 16, 21, 23, 24, 26, 28, 42],
      grid = [times_cell (6, 42), times_cell (10, 26), plus_cell (5, 8), plus_cell (6, 24),
              plus_cell (2, 23), times_cell (6, 24), plus_cell (10, 26), plus_cell (14, 16),
              plus_cell (6, 42), times_cell (1, 21), times_cell (5, 8), plus_cell (2, 28),
              times_cell (14, 16), times_cell (2, 28), times_cell (2, 23), plus_cell (1, 21)]\<rparr>"

section \<open>Divisor pairs\<close>

text \<open>
  The loop of \<open>getDivisorPairs\<close> stops at once when \<open>n\<close> is not positive, and for a
  positive \<open>n\<close> it lists exactly the pairs \<open>(a, b)\<close> with \<open>1 \<le> a \<le> b\<close> and
  \<open>a * b = n\<close>.
\<close>

lemma divisor_loop_nonpos: "n \<le> 0 \<Longrightarrow> divisor_loop n i = []"
proof -
  assume n: "n \<le> 0"
  have stop: "\<not> (1 \<le> i \<and> i * i \<le> n)"
  proof
    assume a: "1 \<le> i \<and> i * i \<le> n"
    then have "0 < i * i" by simp
    with a n show False by linarith
  qed
  show ?thesis by (subst divisor_loop.simps) (simp only: stop if_False)
qed

lemma sort_pair_divisor:
  assumes "1 \<le> i" "i * i \<le> n" "n mod i = 0"
  shows "sort_pair i (n div i) = (i, n div i) \<and> i \<le> n div i \<and> i * (n div i) = n"
proof -
  have eq: "i * (n div i) = n" using assms(3) by auto
  have "i \<le> n div i"
  proof (rule ccontr)
    assume "\<not> i \<le> n div i"
    then have "n div i < i" by simp
    then have "i * (n div i) < i * i" using assms(1) by (intro mult_strict_left_mono) auto
    with eq assms(2) show False by linarith
  qed
  then show ?thesis using eq by (simp add: sort_pair_def)
qed

lemma divisor_loop_sound:
  "1 \<le> i \<Longrightarrow> (a, b) \<in> set (divisor_loop n i) \<Longrightarrow> i \<le> a \<and> a \<le> b \<and> a * b = n"
proof (induction n i rule: divisor_loop.induct)
  case (1 n i)
  show ?case
  proof (cases "1 \<le> i \<and> i * i \<le> n")
    case False
    have "divisor_loop n i = []" by (subst divisor_loop.simps) (simp only: False if_False)
    with "1.prems" show ?thesis by simp
  next
    case True
    have unfold: "divisor_loop n i =
        (if n mod i = 0 then [sort_pair i (n div i)] else []) @ divisor_loop n (i + 1)"
      using True by (subst divisor_loop.simps) simp
    from "1.prems"(2) unfold consider
      (here) "n mod i = 0" "(a, b) = sort_pair i (n div i)"
      | (later) "(a, b) \<in> set (divisor_loop n (i + 1))"
      by (auto split: if_splits)
    then show ?thesis
    proof cases
      case here
      with sort_pair_divisor [of i n] True show ?thesis by auto
    next
      case later
      have "i + 1 \<le> a \<and> a \<le> b \<and> a * b = n"
        using "1.IH" [OF True] later "1.prems"(1) by simp
      then show ?thesis by simp
    qed
  qed
qed

lemma divisor_loop_complete:
  "1 \<le> i \<Longrightarrow> i \<le> a \<Longrightarrow> a \<le> b \<Longrightarrow> a * b = n \<Longrightarrow> (a, b) \<in> set (divisor_loop n i)"
proof (induction n i rule: divisor_loop.induct)
  case (1 n i)
  have "i * i \<le> a * a" using "1.prems" by (intro mult_mono) auto
  also have "a * a \<le> a * b" using "1.prems" by (intro mult_left_mono) auto
  finally have guard: "1 \<le> i \<and> i * i \<le> n" using "1.prems" by simp
  have unfold: "divisor_loop n i =
      (if n mod i = 0 then [sort_pair i (n div i)] else []) @ divisor_loop n (i + 1)"
    using guard by (subst divisor_loop.simps) simp
  show ?case
  proof (cases "i = a")
    case True
    have "n mod a = 0" using "1.prems"(4) by auto
    moreover have "n div a = b" using "1.prems" by auto
    moreover have "sort_pair a b = (a, b)" using "1.prems"(3) by (simp add: sort_pair_def)
    ultimately show ?thesis using unfold True by simp
  next
    case False
    then have "i + 1 \<le> a" using "1.prems"(2) by simp
    then have "(a, b) \<in> set (divisor_loop n (i + 1))"
      using "1.IH" [OF guard] "1.prems" by simp
    then show ?thesis using unfold by simp
  qed
qed

lemma getDivisorPairs_iff:
  "(a, b) \<in> set (getDivisorPairs n) \<longleftrightarrow> 1 \<le> a \<and> a \<le> b \<and> a * b = n"
  unfolding getDivisorPairs_def
  using divisor_loop_sound [of 1 a b n] divisor_loop_complete [of 1 a b n] by auto

text \<open>
  Claim C9. For every integer \<open>n \<le> 0\<close> the divisor search returns the empty list. The
  function is total: its termination proof above covers every \<open>n\<close>, so the loop cannot
  run forever on zero or on a negative number.
\<close>

theorem getDivisorPairs_nonpositive: "n \<le> 0 \<Longrightarrow> getDivisorPairs n = []"
  unfolding getDivisorPairs_def by (rule divisor_loop_nonpos)

theorem getDivisorPairs_nonpositive_witness:
  "(- 4 :: int) \<le> 0 \<and> getDivisorPairs (- 4) = [] \<and> getDivisorPairs 0 = []"
  using getDivisorPairs_nonpositive [of "- 4"] getDivisorPairs_nonpositive [of 0] by simp

section \<open>The extractor records exactly the consistent uses\<close>

lemma foldl_preserves:
  assumes "P a" and "\<And>a x. P a \<Longrightarrow> P (f a x)"
  shows "P (foldl f a xs)"
  using assms(1) by (induction xs arbitrary: a) (auto intro: assms(2))

lemma foldl_uses_of:
  assumes "\<And>cs x. set (uses_of (f cs x) k) = set (uses_of cs k) \<union> E x"
  shows "set (uses_of (foldl f cs xs) k) = set (uses_of cs k) \<union> (\<Union>x\<in>set xs. E x)"
proof (induction xs arbitrary: cs)
  case Nil
  show ?case by simp
next
  case (Cons x xs)
  have "set (uses_of (foldl f cs (x # xs)) k) = set (uses_of (f cs x) k) \<union> (\<Union>y\<in>set xs. E y)"
    using Cons.IH [of "f cs x"] by simp
  also have "\<dots> = set (uses_of cs k) \<union> (\<Union>y\<in>set (x # xs). E y)"
    by (simp add: assms Un_assoc)
  finally show ?case .
qed

lemma uses_of_record_use:
  "set (uses_of (record_use k' u cs) k) = set (uses_of cs k) \<union> (if k = k' then {u} else {})"
proof (induction cs)
  case Nil
  show ?case by (simp add: uses_of_def)
next
  case (Cons c cs)
  show ?case
  proof (cases "pair c = k'")
    case True
    then show ?thesis
      by (cases "k = k'") (simp_all add: uses_of_def Un_assoc Un_commute Un_left_commute)
  next
    case False
    then show ?thesis using Cons.IH
      by (cases "pair c = k") (simp_all add: uses_of_def Un_assoc)
  qed
qed

lemma keys_record_use: "set (map pair (record_use k u cs)) = insert k (set (map pair cs))"
  by (induction cs) auto

lemma distinct_record_use:
  "distinct (map pair cs) \<Longrightarrow> distinct (map pair (record_use k u cs))"
proof (induction cs)
  case Nil
  show ?case by simp
next
  case (Cons c cs)
  show ?case
  proof (cases "pair c = k")
    case True
    with Cons.prems show ?thesis by simp
  next
    case False
    have "pair c \<notin> set (map pair (record_use k u cs))"
      using Cons.prems False by (simp only: keys_record_use) auto
    with Cons False show ?thesis by simp
  qed
qed

lemma nonempty_record_use:
  "\<forall>c\<in>set cs. uses c \<noteq> [] \<Longrightarrow> \<forall>c\<in>set (record_use k u cs). uses c \<noteq> []"
  by (induction cs) auto

lemma well_keyed_record_use: "well_keyed cs \<Longrightarrow> well_keyed (record_use k u cs)"
  unfolding well_keyed_def using distinct_record_use nonempty_record_use by blast

lemma well_keyed_pair_step: "well_keyed cs \<Longrightarrow> well_keyed (pair_step g i j cs mp)"
  by (simp add: pair_step_def well_keyed_record_use)

lemma well_keyed_add_step: "well_keyed cs \<Longrightarrow> well_keyed (add_step g i mps cs j)"
  unfolding add_step_def by (auto intro: foldl_preserves well_keyed_pair_step)

lemma well_keyed_mult_step: "well_keyed cs \<Longrightarrow> well_keyed (mult_step g cs i)"
  unfolding mult_step_def by (rule foldl_preserves) (auto intro: well_keyed_add_step)

lemma well_keyed_findConsistentPairs: "well_keyed (findConsistentPairs g)"
  unfolding findConsistentPairs_def
proof (rule foldl_preserves)
  show "well_keyed []" by (simp add: well_keyed_def)
qed (rule well_keyed_mult_step)

lemma uses_of_pair_step:
  "set (uses_of (pair_step g i j cs mp) k) =
     set (uses_of cs k) \<union> (if mp = k \<and> fst k + snd k = g ! j then {make_use g i j} else {})"
  by (auto simp: pair_step_def uses_of_record_use)

lemma uses_of_add_step:
  "set (uses_of (add_step g i mps cs j) k) =
     set (uses_of cs k) \<union>
       (if i \<noteq> j \<and> k \<in> set mps \<and> fst k + snd k = g ! j then {make_use g i j} else {})"
proof (cases "i = j")
  case True
  then show ?thesis by (simp add: add_step_def)
next
  case False
  have "set (uses_of (foldl (pair_step g i j) cs mps) k) =
      set (uses_of cs k) \<union>
        (\<Union>mp\<in>set mps. if mp = k \<and> fst k + snd k = g ! j then {make_use g i j} else {})"
    by (rule foldl_uses_of) (rule uses_of_pair_step)
  with False show ?thesis by (auto simp: add_step_def split: if_splits)
qed

lemma uses_of_mult_step:
  "set (uses_of (mult_step g cs i) k) =
     set (uses_of cs k) \<union>
       {make_use g i j | j. j < length g \<and> i \<noteq> j
          \<and> k \<in> set (getDivisorPairs (g ! i)) \<and> fst k + snd k = g ! j}"
proof -
  have "set (uses_of (mult_step g cs i) k) =
      set (uses_of cs k) \<union>
        (\<Union>j\<in>set [0..<length g].
            if i \<noteq> j \<and> k \<in> set (getDivisorPairs (g ! i)) \<and> fst k + snd k = g ! j
            then {make_use g i j} else {})"
    unfolding mult_step_def by (rule foldl_uses_of) (rule uses_of_add_step)
  then show ?thesis by (auto split: if_splits)
qed

lemma uses_of_findConsistentPairs:
  "set (uses_of (findConsistentPairs g) k) = extracted_uses g k"
proof -
  have e: "set (uses_of [] k) = {}" by (simp add: uses_of_def)
  have step: "set (uses_of (findConsistentPairs g) k) =
      set (uses_of [] k) \<union>
        (\<Union>i\<in>set [0..<length g].
            {make_use g i j | j. j < length g \<and> i \<noteq> j
               \<and> k \<in> set (getDivisorPairs (g ! i)) \<and> fst k + snd k = g ! j})"
    unfolding findConsistentPairs_def by (rule foldl_uses_of) (rule uses_of_mult_step)
  have "(\<Union>i\<in>set [0..<length g].
            {make_use g i j | j. j < length g \<and> i \<noteq> j
               \<and> k \<in> set (getDivisorPairs (g ! i)) \<and> fst k + snd k = g ! j}) =
        extracted_uses g k"
    unfolding extracted_uses_def by auto blast
  with step e show ?thesis by simp
qed

lemma uses_of_member:
  "distinct (map pair cs) \<Longrightarrow> c \<in> set cs \<Longrightarrow> uses_of cs (pair c) = uses c"
proof (induction cs)
  case Nil
  then show ?case by simp
next
  case (Cons d cs)
  show ?case
  proof (cases "c = d")
    case True
    have "pair d \<notin> pair ` set cs" using Cons.prems(1) by simp
    then have "\<forall>x\<in>set cs. pair x \<noteq> pair d" by (metis imageI)
    then have "filter (\<lambda>c'. pair c' = pair d) cs = []"
      by (simp add: filter_empty_conv)
    with True show ?thesis by (simp add: uses_of_def)
  next
    case False
    with Cons.prems have in_cs: "c \<in> set cs" by simp
    then have "pair d \<noteq> pair c" using Cons.prems(1) by auto
    then show ?thesis using Cons.IH in_cs Cons.prems(1) by (simp add: uses_of_def)
  qed
qed

lemma candidate_uses:
  "c \<in> set (findConsistentPairs g) \<Longrightarrow> set (uses c) = extracted_uses g (pair c)"
  using uses_of_member [of "findConsistentPairs g" c] well_keyed_findConsistentPairs [of g]
    uses_of_findConsistentPairs [of g "pair c"]
  by (simp add: well_keyed_def)

lemma candidate_pair_divisor:
  assumes "c \<in> set (findConsistentPairs g)"
  shows "1 \<le> fst (pair c) \<and> fst (pair c) \<le> snd (pair c)"
proof -
  have "uses c \<noteq> []"
    using well_keyed_findConsistentPairs [of g] assms by (simp add: well_keyed_def)
  then obtain u where "u \<in> set (uses c)" by (cases "uses c") auto
  then have "u \<in> extracted_uses g (pair c)" using candidate_uses [OF assms] by simp
  then obtain i where "pair c \<in> set (getDivisorPairs (g ! i))"
    by (auto simp: extracted_uses_def)
  then have "(fst (pair c), snd (pair c)) \<in> set (getDivisorPairs (g ! i))" by simp
  then show ?thesis by (simp only: getDivisorPairs_iff)
qed

lemma fcp_small: "findConsistentPairs [12, 7] =
   [\<lparr>pair = (3, 4), uses = [\<lparr>mult = \<lparr>cell_value = 12, cell_index = 0\<rparr>, add = \<lparr>cell_value = 7, cell_index = 1\<rparr>\<rparr>]\<rparr>]"
  by code_simp

text \<open>
  Claim C6. Every candidate returned by \<open>findConsistentPairs\<close> is canonical
  (\<open>lo \<le> hi\<close>), and each of its recorded uses names two different cells of the grid, the
  \<open>mult\<close> cell holding the product \<open>lo * hi\<close> and the \<open>add\<close> cell holding the sum
  \<open>lo + hi\<close>; the \<open>value\<close> fields of the use hold the same two numbers.
\<close>

theorem extractor_uses_consistent:
  assumes "c \<in> set (findConsistentPairs gridNumbers)"
  shows "fst (pair c) \<le> snd (pair c) \<and>
         (\<forall>u\<in>set (uses c).
            cell_index (mult u) < length gridNumbers \<and> cell_index (add u) < length gridNumbers \<and>
            gridNumbers ! cell_index (mult u) = fst (pair c) * snd (pair c) \<and>
            gridNumbers ! cell_index (add u) = fst (pair c) + snd (pair c) \<and>
            cell_value (mult u) = fst (pair c) * snd (pair c) \<and>
            cell_value (add u) = fst (pair c) + snd (pair c) \<and>
            cell_index (add u) \<noteq> cell_index (mult u))"
proof (intro conjI ballI)
  show "fst (pair c) \<le> snd (pair c)" using candidate_pair_divisor [OF assms] by simp
next
  fix u assume "u \<in> set (uses c)"
  then have "u \<in> extracted_uses gridNumbers (pair c)" using candidate_uses [OF assms] by simp
  then obtain i j where u: "u = make_use gridNumbers i j" "i < length gridNumbers"
      "j < length gridNumbers" "i \<noteq> j"
      "(fst (pair c), snd (pair c)) \<in> set (getDivisorPairs (gridNumbers ! i))"
      "fst (pair c) + snd (pair c) = gridNumbers ! j"
    by (auto simp: extracted_uses_def)
  from u(5) have prod: "fst (pair c) * snd (pair c) = gridNumbers ! i"
    by (simp only: getDivisorPairs_iff)
  show "cell_index (mult u) < length gridNumbers" using u by (simp add: make_use_def)
  show "cell_index (add u) < length gridNumbers" using u by (simp add: make_use_def)
  show "gridNumbers ! cell_index (mult u) = fst (pair c) * snd (pair c)"
    using u prod by (simp add: make_use_def)
  show "gridNumbers ! cell_index (add u) = fst (pair c) + snd (pair c)"
    using u by (simp add: make_use_def)
  show "cell_value (mult u) = fst (pair c) * snd (pair c)"
    using u prod by (simp add: make_use_def)
  show "cell_value (add u) = fst (pair c) + snd (pair c)"
    using u by (simp add: make_use_def)
  show "cell_index (add u) \<noteq> cell_index (mult u)" using u by (simp add: make_use_def)
qed

theorem extractor_uses_consistent_witness:
  "\<lparr>pair = (3, 4), uses = [\<lparr>mult = \<lparr>cell_value = 12, cell_index = 0\<rparr>,
                                add = \<lparr>cell_value = 7, cell_index = 1\<rparr>\<rparr>]\<rparr>
     \<in> set (findConsistentPairs [12, 7]) \<and>
   (3 :: int) \<le> 4 \<and> [12, 7 :: int] ! 0 = 3 * 4 \<and> [12, 7 :: int] ! 1 = 3 + 4 \<and> (1 :: nat) \<noteq> 0"
  using extractor_uses_consistent
    [of "\<lparr>pair = (3, 4), uses = [\<lparr>mult = \<lparr>cell_value = 12, cell_index = 0\<rparr>,
                                      add = \<lparr>cell_value = 7, cell_index = 1\<rparr>\<rparr>]\<rparr>" "[12, 7]"]
  by (simp add: fcp_small)

section \<open>Grid assignment: what a successful assignment looks like\<close>

lemma place_eq: "place g ab u =
   (g[cell_index (add u) := plus_cell ab])[cell_index (mult u) := times_cell ab]"
  by (simp add: place_def plus_cell_def times_cell_def)

lemma assigned_update:
  assumes "i < length g" "g ! i = None"
  shows "mset (assigned (g[i := Some x])) = add_mset (Some x) (mset (assigned g))"
proof -
  have "mset (assigned (g[i := Some x])) = filter_mset (\<lambda>e. e \<noteq> None) (mset (g[i := Some x]))"
    by (simp add: assigned_def)
  also have "mset (g[i := Some x]) = add_mset (Some x) (mset g - {#None#})"
    using assms by (simp add: mset_update)
  also have "filter_mset (\<lambda>e. e \<noteq> None) (add_mset (Some x) (mset g - {#None#})) =
      add_mset (Some x) (filter_mset (\<lambda>e. e \<noteq> None) (mset g))"
    by simp
  finally show ?thesis by (simp add: assigned_def)
qed

lemma place_length: "length (place g ab u) = length g"
  by (simp add: place_def)

lemma place_assigned:
  assumes "cell_free g (cell_index (add u))" "cell_free g (cell_index (mult u))"
    "cell_index (add u) \<noteq> cell_index (mult u)"
  shows "mset (assigned (place g ab u)) = {#plus_cell ab, times_cell ab#} + mset (assigned g)"
proof -
  let ?g1 = "g[cell_index (add u) := plus_cell ab]"
  have 1: "mset (assigned ?g1) = add_mset (plus_cell ab) (mset (assigned g))"
    using assms(1) unfolding plus_cell_def cell_free_def by (intro assigned_update) auto
  have "cell_index (mult u) < length ?g1" "?g1 ! cell_index (mult u) = None"
    using assms unfolding cell_free_def by auto
  then have "mset (assigned (?g1[cell_index (mult u) := times_cell ab])) =
      add_mset (times_cell ab) (mset (assigned ?g1))"
    unfolding times_cell_def by (intro assigned_update) auto
  with 1 show ?thesis by (simp add: place_eq)
qed

lemma place_consistent:
  assumes "cells_consistent gn g" "use_ok gn ab u"
  shows "cells_consistent gn (place g ab u)"
  unfolding cells_consistent_def
proof (intro allI impI)
  fix i assume i: "i < length (place g ab u)"
  then have ig: "i < length g" by (simp add: place_length)
  have old: "cell_consistent gn i (g ! i)" using assms(1) ig by (simp add: cells_consistent_def)
  consider (m) "i = cell_index (mult u)"
    | (a) "i \<noteq> cell_index (mult u)" "i = cell_index (add u)"
    | (o) "i \<noteq> cell_index (mult u)" "i \<noteq> cell_index (add u)" by blast
  then show "cell_consistent gn i (place g ab u ! i)"
  proof cases
    case m
    then have "place g ab u ! i = times_cell ab" using ig by (simp add: place_eq)
    then show ?thesis using assms(2) m
      by (simp add: cell_consistent_def times_cell_def use_ok_def)
  next
    case a
    then have "place g ab u ! i = plus_cell ab" using ig by (simp add: place_eq)
    then show ?thesis using assms(2) a
      by (simp add: cell_consistent_def plus_cell_def use_ok_def)
  next
    case o
    then have "place g ab u ! i = g ! i" by (simp add: place_eq)
    then show ?thesis using old by simp
  qed
qed

lemma assignment_cells:
  "findGridAssignment ps g = Some r \<Longrightarrow>
     length r = length g \<and> mset (assigned r) = mset (combo_cells ps) + mset (assigned g)"
  "try_uses ab us ps g = Some r \<Longrightarrow>
     length r = length g \<and>
     mset (assigned r) = {#plus_cell ab, times_cell ab#} + mset (combo_cells ps) + mset (assigned g)"
proof (induction ps g and ab us ps g arbitrary: r and r rule: findGridAssignment_try_uses.induct)
  case (1 g)
  then show ?case by (simp add: combo_cells_def)
next
  case (2 p ps g)
  then show ?case by (simp add: combo_cells_def)
next
  case (3 ab ps g)
  then show ?case by simp
next
  case (4 ab u us ps g)
  show ?case
  proof (cases "use_fits g u")
    case False
    then have "try_uses ab us ps g = Some r" using "4.prems" by simp
    then show ?thesis using "4.IH"(3) False by simp
  next
    case True
    show ?thesis
    proof (cases "findGridAssignment ps (place g ab u)")
      case None
      then have "try_uses ab us ps g = Some r" using "4.prems" True by simp
      then show ?thesis using "4.IH"(2) True None by simp
    next
      case (Some r')
      then have r: "r' = r" using "4.prems" True by simp
      have "length r = length (place g ab u) \<and>
          mset (assigned r) = mset (combo_cells ps) + mset (assigned (place g ab u))"
        using "4.IH"(1) True Some r by simp
      then show ?thesis using place_assigned [of g u ab] True
        by (simp add: place_length use_fits_def)
    qed
  qed
qed

lemma assignment_consistent:
  "findGridAssignment ps g = Some r \<Longrightarrow> cells_consistent gn g \<Longrightarrow>
     \<forall>p\<in>set ps. candidate_ok gn p \<Longrightarrow> cells_consistent gn r"
  "try_uses ab us ps g = Some r \<Longrightarrow> cells_consistent gn g \<Longrightarrow>
     \<forall>p\<in>set ps. candidate_ok gn p \<Longrightarrow> \<forall>u\<in>set us. use_ok gn ab u \<Longrightarrow> cells_consistent gn r"
proof (induction ps g and ab us ps g arbitrary: r and r rule: findGridAssignment_try_uses.induct)
  case (1 g)
  then show ?case by simp
next
  case (2 p ps g)
  then show ?case by (simp add: candidate_ok_def)
next
  case (3 ab ps g)
  then show ?case by simp
next
  case (4 ab u us ps g)
  show ?case
  proof (cases "use_fits g u")
    case False
    then have "try_uses ab us ps g = Some r" using "4.prems" by simp
    then show ?thesis using "4.IH"(3) False "4.prems" by simp
  next
    case True
    show ?thesis
    proof (cases "findGridAssignment ps (place g ab u)")
      case None
      then have "try_uses ab us ps g = Some r" using "4.prems" True by simp
      then show ?thesis using "4.IH"(2) True None "4.prems" by simp
    next
      case (Some r')
      then have r: "r' = r" using "4.prems" True by simp
      have "cells_consistent gn (place g ab u)"
        using place_consistent "4.prems" by simp
      then show ?thesis using "4.IH"(1) True Some r "4.prems" by simp
    qed
  qed
qed

section \<open>Every returned solution is verified\<close>

lemma extracted_candidate_ok:
  assumes "c \<in> set (findConsistentPairs g)"
  shows "candidate_ok g c"
proof -
  have "use_ok g (pair c) u" if "u \<in> set (uses c)" for u
  proof -
    from that have "u \<in> extracted_uses g (pair c)" using candidate_uses [OF assms] by simp
    then obtain i j where u: "u = make_use g i j" "i < length g" "j < length g" "i \<noteq> j"
        "(fst (pair c), snd (pair c)) \<in> set (getDivisorPairs (g ! i))"
        "fst (pair c) + snd (pair c) = g ! j"
      by (auto simp: extracted_uses_def)
    from u(5) have "fst (pair c) * snd (pair c) = g ! i" by (simp only: getDivisorPairs_iff)
    with u show ?thesis by (simp add: use_ok_def make_use_def)
  qed
  then show ?thesis using candidate_pair_divisor [OF assms] by (simp add: candidate_ok_def)
qed

lemma check_combo_tested: "tested (check_combo stripValues combo st) = tested st + 1"
  by (simp add: check_combo_def Let_def split: option.splits)

lemma check_combo_verified:
  assumes "state_verified A stripValues st" "length combo = 8" "set combo \<subseteq> A"
  shows "state_verified A stripValues (check_combo stripValues combo st)"
proof (cases "matchesKnownValues (buildStripFromPairs combo) stripValues")
  case False
  then show ?thesis using assms(1) by (simp add: check_combo_def state_verified_def)
next
  case True
  show ?thesis
  proof (cases "findGridAssignment combo (replicate 16 None)")
    case None
    then show ?thesis using assms(1) True by (simp add: check_combo_def state_verified_def)
  next
    case (Some a)
    have "verified A stripValues
        \<lparr>found_strip = buildStripFromPairs combo, found_grid = a, found_tested = tested st + 1\<rparr>"
      unfolding verified_def using assms(2,3) True Some by (intro exI [of _ combo]) simp
    then show ?thesis using True Some by (simp add: check_combo_def state_verified_def Let_def)
  qed
qed

lemma backtrack_verified:
  "state_verified A stripValues st \<Longrightarrow> set rest \<subseteq> A \<Longrightarrow> set currentCombo \<subseteq> A \<Longrightarrow>
     state_verified A stripValues (backtrack stripValues maxAttempts rest currentCombo usedIndices st)"
  "state_verified A stripValues st \<Longrightarrow> set rest \<subseteq> A \<Longrightarrow> set currentCombo \<subseteq> A \<Longrightarrow>
     state_verified A stripValues (backtrack_loop stripValues maxAttempts rest currentCombo usedIndices st)"
proof (induction stripValues maxAttempts rest currentCombo usedIndices st
         and stripValues maxAttempts rest currentCombo usedIndices st
       rule: backtrack_backtrack_loop.induct)
  case (1 stripValues maxAttempts rest currentCombo usedIndices st)
  show ?case
  proof (cases "solution_of st \<noteq> None \<or> tested st > maxAttempts")
    case True
    then show ?thesis using "1.prems" by (subst backtrack.simps) simp
  next
    case False
    show ?thesis
    proof (cases "length currentCombo = 8")
      case True
      then show ?thesis using False "1.prems" check_combo_verified
        by (subst backtrack.simps) simp
    next
      case len: False
      then show ?thesis using False "1.IH" "1.prems" by (subst backtrack.simps) simp
    qed
  qed
next
  case (2 stripValues maxAttempts currentCombo usedIndices st)
  then show ?case by simp
next
  case (3 stripValues maxAttempts p rest currentCombo usedIndices st)
  show ?case
  proof (cases "solution_of st \<noteq> None")
    case True
    then show ?thesis using "3.prems" by simp
  next
    case False
    show ?thesis
    proof (cases "available_use usedIndices (uses p)")
      case None
      then show ?thesis using False "3.IH"(1) "3.prems" by simp
    next
      case (Some u)
      have "state_verified A stripValues
          (backtrack stripValues maxAttempts rest (currentCombo @ [p])
             (insert (cell_index (mult u)) (insert (cell_index (add u)) usedIndices)) st)"
        using "3.IH"(2) False Some "3.prems" by simp
      then show ?thesis using "3.IH"(3) False Some "3.prems" by simp
    qed
  qed
qed

lemma search_verified:
  "state_verified (set allPairs) stripValues (search allPairs stripValues maxAttempts)"
  unfolding search_def by (rule backtrack_verified) (simp_all add: state_verified_def)

lemma solve_verified:
  assumes "solve gridNumbers stripValues maxAttempts = Some sol"
  shows "\<exists>combo. length combo = 8 \<and> set combo \<subseteq> set (findConsistentPairs gridNumbers) \<and>
           strip sol = buildStripFromPairs combo \<and>
           matchesKnownValues (strip sol) stripValues \<and>
           findGridAssignment combo (replicate 16 None) = Some (grid sol)"
proof -
  from assms obtain f where
    f: "solution_of (search (findConsistentPairs gridNumbers) stripValues maxAttempts) = Some f"
      and sol: "sol = \<lparr>strip = found_strip f, grid = found_grid f\<rparr>"
    by (auto simp: solve_def findOptimalCombination_def split: option.splits)
  have "verified (set (findConsistentPairs gridNumbers)) stripValues f"
    using search_verified [of "findConsistentPairs gridNumbers" stripValues maxAttempts] f
    by (simp add: state_verified_def)
  then show ?thesis using sol by (auto simp: verified_def)
qed

lemma matches_from_nth:
  "matches_from xs ks \<Longrightarrow> length xs = length ks \<Longrightarrow> i < length ks \<Longrightarrow>
     ks ! i \<noteq> None \<Longrightarrow> ks ! i = Some (xs ! i)"
proof (induction xs ks arbitrary: i rule: matches_from.induct)
  case (1 x xs k ks)
  show ?case
  proof (cases i)
    case 0
    with "1.prems" show ?thesis by (auto split: if_splits)
  next
    case (Suc j)
    with "1.prems" "1.IH" show ?thesis by (auto split: if_splits)
  qed
qed simp_all

lemma matchesKnownValues_nth:
  assumes "matchesKnownValues xs ks"
  shows "length xs = length ks \<and> (\<forall>i<length ks. ks ! i \<noteq> None \<longrightarrow> ks ! i = Some (xs ! i))"
proof -
  from assms have len: "length xs = length ks" and m: "matches_from xs ks"
    by (auto simp: matchesKnownValues_def split: if_splits)
  then show ?thesis using matches_from_nth by blast
qed

lemma buildStrip_length: "length (buildStripFromPairs ps) = 2 * length ps"
  by (simp add: buildStripFromPairs_def length_concat comp_def sum_list_triv)

lemma combo_cells_length: "length (combo_cells ps) = 2 * length ps"
  by (simp add: combo_cells_def length_concat comp_def sum_list_triv)

lemma assigned_all:
  assumes "length (assigned r) = length r"
  shows "assigned r = r" and "\<forall>i<length r. r ! i \<noteq> None"
proof -
  have all: "\<forall>x\<in>set r. x \<noteq> None"
  proof (rule ccontr)
    assume "\<not> (\<forall>x\<in>set r. x \<noteq> None)"
    then obtain x where "x \<in> set r" "\<not> x \<noteq> None" by blast
    then have "length (filter (\<lambda>e. e \<noteq> None) r) < length r" by (rule length_filter_less)
    with assms show False by (simp add: assigned_def)
  qed
  then show "assigned r = r" by (simp add: assigned_def)
  from all show "\<forall>i<length r. r ! i \<noteq> None" by simp
qed

lemma combo_cells_plus:
  "length (filter (\<lambda>c. cell_op c = Some Plus) (combo_cells ps)) = length ps"
  by (induction ps) (simp_all add: combo_cells_def plus_cell_def times_cell_def cell_op_def)

lemma combo_cells_times:
  "length (filter (\<lambda>c. cell_op c = Some Times) (combo_cells ps)) = length ps"
  by (induction ps) (simp_all add: combo_cells_def plus_cell_def times_cell_def cell_op_def)

lemma length_filter_mset_eq:
  "mset xs = mset ys \<Longrightarrow> length (filter P xs) = length (filter P ys)"
proof -
  assume "mset xs = mset ys"
  then have "filter_mset P (mset xs) = filter_mset P (mset ys)" by simp
  then have "mset (filter P xs) = mset (filter P ys)" by simp
  then show ?thesis by (rule mset_eq_length)
qed

lemma full_assignment:
  assumes "findGridAssignment combo (replicate 16 None) = Some r" "length combo = 8"
  shows "length r = 16" "\<forall>i<16. r ! i \<noteq> None" "mset r = mset (combo_cells combo)"
proof -
  have a: "assigned (replicate 16 None :: grid_assignment) = []" by (simp add: assigned_def)
  from assignment_cells(1) [OF assms(1)] a
  have len: "length r = 16" and m: "mset (assigned r) = mset (combo_cells combo)" by simp_all
  from m have "length (assigned r) = length (combo_cells combo)" by (rule mset_eq_length)
  then have full: "length (assigned r) = length r"
    using len assms(2) by (simp add: combo_cells_length)
  show "length r = 16" by (rule len)
  show "\<forall>i<16. r ! i \<noteq> None" using assigned_all(2) [OF full] len by simp
  show "mset r = mset (combo_cells combo)" using assigned_all(1) [OF full] m by simp
qed

lemma solve_cells_consistent:
  assumes "solve gridNumbers stripValues maxAttempts = Some sol"
  shows "cells_consistent gridNumbers (grid sol)"
proof -
  from solve_verified [OF assms] obtain combo where
    sub: "set combo \<subseteq> set (findConsistentPairs gridNumbers)"
    and fga: "findGridAssignment combo (replicate 16 None) = Some (grid sol)" by blast
  have ok: "\<forall>p\<in>set combo. candidate_ok gridNumbers p"
    using sub extracted_candidate_ok by blast
  have "cells_consistent gridNumbers (replicate 16 None)"
    by (simp add: cells_consistent_def cell_consistent_def)
  then show ?thesis using assignment_consistent(1) [OF fga] ok by blast
qed

text \<open>
  Claim C5. A solution returned by \<open>solve\<close> is fully verified. Its strip is the sorted list
  of the 16 numbers of 8 candidates of the extractor, and it equals the input strip at every
  slot that is not \<open>null\<close>. Its grid has 16 cells, none of them left \<open>null\<close>; as a multiset
  the cells are one \<open>+\<close> equation and one \<open>\<times>\<close> equation for each of the 8 candidates, so
  every index is assigned exactly once, 8 of them to additions and 8 to multiplications.
\<close>

theorem solution_fully_verified:
  assumes "solve gridNumbers stripValues maxAttempts = Some sol"
  shows "(\<exists>combo. length combo = 8 \<and> set combo \<subseteq> set (findConsistentPairs gridNumbers) \<and>
            strip sol = sort (concat (map (\<lambda>p. [fst (pair p), snd (pair p)]) combo)) \<and>
            mset (grid sol) = mset (combo_cells combo)) \<and>
         length (strip sol) = 16 \<and> sorted (strip sol) \<and> length stripValues = 16 \<and>
         (\<forall>i<16. stripValues ! i \<noteq> None \<longrightarrow> stripValues ! i = Some (strip sol ! i)) \<and>
         length (grid sol) = 16 \<and> (\<forall>i<16. grid sol ! i \<noteq> None) \<and>
         length (filter (\<lambda>c. cell_op c = Some Plus) (grid sol)) = 8 \<and>
         length (filter (\<lambda>c. cell_op c = Some Times) (grid sol)) = 8"
proof -
  from solve_verified [OF assms] obtain combo where
    len: "length combo = 8"
    and sub: "set combo \<subseteq> set (findConsistentPairs gridNumbers)"
    and str: "strip sol = buildStripFromPairs combo"
    and mat: "matchesKnownValues (strip sol) stripValues"
    and fga: "findGridAssignment combo (replicate 16 None) = Some (grid sol)" by blast
  note full = full_assignment [OF fga len]
  have l16: "length (strip sol) = 16" using str len by (simp add: buildStrip_length)
  have srt: "sorted (strip sol)" using str by (simp add: buildStripFromPairs_def)
  from matchesKnownValues_nth [OF mat] l16
  have ls: "length stripValues = 16"
    and nth: "\<forall>i<16. stripValues ! i \<noteq> None \<longrightarrow> stripValues ! i = Some (strip sol ! i)"
    by simp_all
  have plus: "length (filter (\<lambda>c. cell_op c = Some Plus) (grid sol)) = 8"
    using length_filter_mset_eq [OF full(3)] len by (simp add: combo_cells_plus)
  have times: "length (filter (\<lambda>c. cell_op c = Some Times) (grid sol)) = 8"
    using length_filter_mset_eq [OF full(3)] len by (simp add: combo_cells_times)
  have "\<exists>combo. length combo = 8 \<and> set combo \<subseteq> set (findConsistentPairs gridNumbers) \<and>
            strip sol = sort (concat (map (\<lambda>p. [fst (pair p), snd (pair p)]) combo)) \<and>
            mset (grid sol) = mset (combo_cells combo)"
    using len sub str full(3) unfolding buildStripFromPairs_def by blast
  with l16 srt ls nth full(1,2) plus times show ?thesis by blast
qed

text \<open>
  Claim C10. In a solution returned by \<open>solve\<close>, the equation assigned to a grid cell
  evaluates to the grid number of that cell: \<open>num1 + num2\<close> for a \<open>+\<close> cell and
  \<open>num1 * num2\<close> for a \<open>\<times>\<close> cell.
\<close>

theorem solution_cells_evaluate:
  assumes "solve gridNumbers stripValues maxAttempts = Some sol"
    and "i < length (grid sol)" and "grid sol ! i = Some e"
  shows "i < length gridNumbers \<and>
         (op e = Plus \<longrightarrow> num1 e + num2 e = gridNumbers ! i) \<and>
         (op e = Times \<longrightarrow> num1 e * num2 e = gridNumbers ! i)"
proof -
  have "cell_consistent gridNumbers i (grid sol ! i)"
    using solve_cells_consistent [OF assms(1)] assms(2) by (simp add: cells_consistent_def)
  then show ?thesis using assms(3) by (cases "op e") (simp_all add: cell_consistent_def)
qed

text \<open>
  Claim C4, as amended. \<open>solve\<close> validates nothing and has no error outcome. When the strip
  is not exactly 16 slots long, or the grid has fewer than 16 numbers, it returns \<open>null\<close>,
  the ordinary not-found result. (A grid longer than 16 is searched like any other, as the
  counterexample below shows.)
\<close>

theorem malformed_input_not_found:
  assumes "length stripValues \<noteq> 16 \<or> length gridNumbers < 16"
  shows "solve gridNumbers stripValues maxAttempts = None"
proof (rule ccontr)
  assume "solve gridNumbers stripValues maxAttempts \<noteq> None"
  then obtain sol where sol: "solve gridNumbers stripValues maxAttempts = Some sol" by blast
  from solve_verified [OF sol] obtain combo where
    len: "length combo = 8"
    and str: "strip sol = buildStripFromPairs combo"
    and mat: "matchesKnownValues (strip sol) stripValues"
    and fga: "findGridAssignment combo (replicate 16 None) = Some (grid sol)" by blast
  have "length (strip sol) = 16" using str len by (simp add: buildStrip_length)
  with matchesKnownValues_nth [OF mat] have ls: "length stripValues = 16" by simp
  note full = full_assignment [OF fga len]
  have "grid sol ! 15 \<noteq> None" using full(2) [rule_format, of 15] by simp
  then obtain e where e: "grid sol ! 15 = Some e" by blast
  have "cell_consistent gridNumbers 15 (grid sol ! 15)"
    using solve_cells_consistent [OF sol] full(1) by (simp add: cells_consistent_def)
  with e have "15 < length gridNumbers" by (simp add: cell_consistent_def)
  with ls assms show False by simp
qed

text \<open>Runs of the model on the concrete inputs.\<close>

lemma run_hidden_zero: "solve sample_grid hidden_strip 0 = Some sample_solution"
  by code_simp

lemma run_empty: "solve [] [] 50000 = None"
  by code_simp

theorem solution_fully_verified_witness:
  "solve sample_grid hidden_strip 0 = Some sample_solution \<and>
   length (strip sample_solution) = 16 \<and> sorted (strip sample_solution) \<and>
   length hidden_strip = 16 \<and> length (grid sample_solution) = 16 \<and>
   grid sample_solution ! 15 \<noteq> None \<and>
   length (filter (\<lambda>c. cell_op c = Some Plus) (grid sample_solution)) = 8 \<and>
   length (filter (\<lambda>c. cell_op c = Some Times) (grid sample_solution)) = 8"
proof -
  note v = solution_fully_verified [OF run_hidden_zero]
  from v have "\<forall>i<16. grid sample_solution ! i \<noteq> None" by blast
  then have "grid sample_solution ! 15 \<noteq> None" by simp
  with v run_hidden_zero show ?thesis by blast
qed

theorem solution_cells_evaluate_witness:
  "solve sample_grid hidden_strip 0 = Some sample_solution \<and>
   2 < length (grid sample_solution) \<and>
   grid sample_solution ! 2 = Some \<lparr>num1 = 3, op = Plus, num2 = 7\<rparr> \<and>
   (3 :: int) + 7 = sample_grid ! 2"
proof -
  have l: "2 < length (grid sample_solution)"
    by (simp add: sample_solution_def sample_cells_def)
  have c: "grid sample_solution ! 2 = Some \<lparr>num1 = 3, op = Plus, num2 = 7\<rparr>"
    by (simp add: sample_solution_def sample_cells_def plus_cell_def)
  from solution_cells_evaluate [OF run_hidden_zero l c] run_hidden_zero l c
  show ?thesis by simp
qed

theorem malformed_input_not_found_witness:
  "length ([] :: int option list) = 0 \<and> length ([] :: int list) = 0 \<and>
   solve [] [] 50000 = None"
  using malformed_input_not_found [of "[]" "[]" 50000] by simp

text \<open>
  The claim C4 as stated fails: the empty grid and strip give the not-found result \<open>null\<close>,
  and a grid of 17 numbers gives an ordinary solution.
\<close>

theorem malformed_input_counterexample:
  "length ([] :: int list) \<noteq> 16 \<and> solve [] [] 50000 = None \<and>
   length (sample_grid @ [7]) \<noteq> 16 \<and>
   solve (sample_grid @ [7]) hidden_strip 50000 = Some sample_solution"
proof -
  have "solve (sample_grid @ [7]) hidden_strip 50000 = Some sample_solution" by code_simp
  then show ?thesis using run_empty by (simp add: sample_grid_def)
qed

section \<open>Budget monotonicity\<close>

lemma backtrack_found_stays:
  "solution_of st \<noteq> None \<Longrightarrow> backtrack s m rest combo used st = st"
  by (subst backtrack.simps) simp

lemma backtrack_loop_found_stays:
  "solution_of st \<noteq> None \<Longrightarrow> backtrack_loop s m rest combo used st = st"
  by (cases rest) simp_all

lemma backtrack_over_budget_stays:
  "over_budget m st \<Longrightarrow> backtrack s m rest combo used st = st"
  by (subst backtrack.simps) (simp add: over_budget_def)

lemma backtrack_loop_over_budget_stays:
  "over_budget m st \<Longrightarrow> backtrack_loop s m rest combo used st = st"
proof (induction rest)
  case Nil
  show ?case by simp
next
  case (Cons p rest)
  show ?case
  proof (cases "available_use used (uses p)")
    case None
    then show ?thesis using Cons by (simp add: over_budget_def)
  next
    case (Some u)
    then show ?thesis using Cons backtrack_over_budget_stays [OF Cons.prems]
      by (simp add: over_budget_def)
  qed
qed

lemma budget_runs_agree:
  "m1 \<le> maxAttempts \<Longrightarrow>
     backtrack stripValues m1 rest currentCombo usedIndices st =
       backtrack stripValues maxAttempts rest currentCombo usedIndices st
     \<or> over_budget m1 (backtrack stripValues m1 rest currentCombo usedIndices st)"
  "m1 \<le> maxAttempts \<Longrightarrow>
     backtrack_loop stripValues m1 rest currentCombo usedIndices st =
       backtrack_loop stripValues maxAttempts rest currentCombo usedIndices st
     \<or> over_budget m1 (backtrack_loop stripValues m1 rest currentCombo usedIndices st)"
proof (induction stripValues maxAttempts rest currentCombo usedIndices st
         and stripValues maxAttempts rest currentCombo usedIndices st
       rule: backtrack_backtrack_loop.induct)
  case (1 stripValues maxAttempts rest currentCombo usedIndices st)
  consider (found) "solution_of st \<noteq> None"
    | (over) "solution_of st = None" "tested st > m1"
    | (go) "solution_of st = None" "\<not> tested st > m1" "\<not> tested st > maxAttempts"
    using "1.prems" by linarith
  then show ?case
  proof cases
    case found
    then show ?thesis by (simp add: backtrack_found_stays)
  next
    case over
    then have "over_budget m1 st" by (simp add: over_budget_def)
    then show ?thesis by (simp add: backtrack_over_budget_stays)
  next
    case go
    show ?thesis
    proof (cases "length currentCombo = 8")
      case True
      have "backtrack stripValues m1 rest currentCombo usedIndices st =
          check_combo stripValues currentCombo st"
        using go True by (subst backtrack.simps) simp
      moreover have "backtrack stripValues maxAttempts rest currentCombo usedIndices st =
          check_combo stripValues currentCombo st"
        using go True by (subst backtrack.simps) simp
      ultimately show ?thesis by simp
    next
      case False
      have "backtrack stripValues m1 rest currentCombo usedIndices st =
          backtrack_loop stripValues m1 rest currentCombo usedIndices st"
        using go False by (subst backtrack.simps) simp
      moreover have "backtrack stripValues maxAttempts rest currentCombo usedIndices st =
          backtrack_loop stripValues maxAttempts rest currentCombo usedIndices st"
        using go False by (subst backtrack.simps) simp
      moreover have "backtrack_loop stripValues m1 rest currentCombo usedIndices st =
          backtrack_loop stripValues maxAttempts rest currentCombo usedIndices st
        \<or> over_budget m1 (backtrack_loop stripValues m1 rest currentCombo usedIndices st)"
        using "1.IH" go False "1.prems" by simp
      ultimately show ?thesis by simp
    qed
  qed
next
  case (2 stripValues maxAttempts currentCombo usedIndices st)
  show ?case by simp
next
  case (3 stripValues maxAttempts p rest currentCombo usedIndices st)
  show ?case
  proof (cases "solution_of st \<noteq> None")
    case True
    then show ?thesis by simp
  next
    case False
    show ?thesis
    proof (cases "available_use usedIndices (uses p)")
      case None
      then show ?thesis using False "3.IH"(1) "3.prems" by simp
    next
      case (Some u)
      let ?used = "insert (cell_index (mult u)) (insert (cell_index (add u)) usedIndices)"
      let ?s1 = "backtrack stripValues m1 rest (currentCombo @ [p]) ?used st"
      let ?s2 = "backtrack stripValues maxAttempts rest (currentCombo @ [p]) ?used st"
      have r1: "backtrack_loop stripValues m1 (p # rest) currentCombo usedIndices st =
          backtrack_loop stripValues m1 rest currentCombo usedIndices ?s1"
        using False Some by simp
      have r2: "backtrack_loop stripValues maxAttempts (p # rest) currentCombo usedIndices st =
          backtrack_loop stripValues maxAttempts rest currentCombo usedIndices ?s2"
        using False Some by simp
      have inner: "?s1 = ?s2 \<or> over_budget m1 ?s1"
        using "3.IH"(2) False Some "3.prems" by simp
      show ?thesis
      proof (cases "over_budget m1 ?s1")
        case True
        then show ?thesis using r1 by (simp add: backtrack_loop_over_budget_stays)
      next
        case nb: False
        with inner have eq: "?s1 = ?s2" by simp
        have "backtrack_loop stripValues m1 rest currentCombo usedIndices ?s2 =
            backtrack_loop stripValues maxAttempts rest currentCombo usedIndices ?s2
          \<or> over_budget m1 (backtrack_loop stripValues m1 rest currentCombo usedIndices ?s2)"
          using "3.IH"(3) False Some "3.prems" by simp
        then show ?thesis using r1 r2 eq by simp
      qed
    qed
  qed
qed

lemma search_runs_agree:
  assumes "m1 \<le> m2"
  shows "search allPairs stripValues m1 = search allPairs stripValues m2
         \<or> over_budget m1 (search allPairs stripValues m1)"
  unfolding search_def using budget_runs_agree(1) [OF assms] by blast

lemma solve_None_iff:
  "solve g s m = None \<longleftrightarrow> solution_of (search (findConsistentPairs g) s m) = None"
  by (simp add: solve_def findOptimalCombination_def split: option.splits)

text \<open>
  Claim C7. Budget monotonicity: if \<open>solve\<close> returns a solution with budget \<open>m1\<close>, it
  returns the same solution with every budget \<open>m2 \<ge> m1\<close>. A not-found result can only
  become a solution under the larger budget when the run with \<open>m1\<close> ended with its counter
  above \<open>m1\<close>, that is, when it was a budget-exhausted not-found.
\<close>

theorem budget_monotone:
  assumes "m1 \<le> m2"
  shows "(solve gridNumbers stripValues m1 = Some sol \<longrightarrow>
            solve gridNumbers stripValues m2 = Some sol) \<and>
         (solve gridNumbers stripValues m1 = None \<and> solve gridNumbers stripValues m2 \<noteq> None \<longrightarrow>
            tested (search (findConsistentPairs gridNumbers) stripValues m1) > m1)"
proof -
  let ?r1 = "search (findConsistentPairs gridNumbers) stripValues m1"
  let ?r2 = "search (findConsistentPairs gridNumbers) stripValues m2"
  have agree: "?r1 = ?r2 \<or> over_budget m1 ?r1" using search_runs_agree [OF assms] .
  have a: "solve gridNumbers stripValues m2 = Some sol"
    if "solve gridNumbers stripValues m1 = Some sol"
  proof -
    from that have "solution_of ?r1 \<noteq> None" using solve_None_iff [of gridNumbers stripValues m1] by auto
    then have "\<not> over_budget m1 ?r1" by (simp add: over_budget_def)
    with agree have "?r1 = ?r2" by simp
    with that show ?thesis by (simp add: solve_def findOptimalCombination_def)
  qed
  have b: "tested ?r1 > m1"
    if "solve gridNumbers stripValues m1 = None" "solve gridNumbers stripValues m2 \<noteq> None"
  proof -
    from that have "?r1 \<noteq> ?r2" by (auto simp: solve_None_iff)
    with agree have "over_budget m1 ?r1" by simp
    then show ?thesis by (simp add: over_budget_def)
  qed
  from a b show ?thesis by blast
qed

text \<open>Further runs of the model on the concrete inputs.\<close>

lemma run_two_zero: "search (findConsistentPairs sample_grid) strip_two 0 = \<lparr>tested = 1, solution_of = None\<rparr>"
  by code_simp

lemma run_two_one: "solve sample_grid strip_two 1 = Some sample_solution_two"
  by code_simp

lemma run_unmatched: "search (findConsistentPairs sample_grid) strip_unmatched 50000 = \<lparr>tested = 2, solution_of = None\<rparr>"
  by code_simp

lemma run_hidden_zero_found:
  "findOptimalCombination (findConsistentPairs sample_grid) hidden_strip 0 =
     Some \<lparr>found_strip = strip sample_solution, found_grid = grid sample_solution, found_tested = 1\<rparr>"
  by code_simp

theorem budget_monotone_witness:
  "(0 :: int) \<le> 1 \<and> solve sample_grid hidden_strip 0 = Some sample_solution \<and>
   solve sample_grid hidden_strip 1 = Some sample_solution \<and>
   solve sample_grid strip_two 0 = None \<and> solve sample_grid strip_two 1 \<noteq> None \<and>
   tested (search (findConsistentPairs sample_grid) strip_two 0) > 0"
proof -
  have z: "solve sample_grid strip_two 0 = None"
    by (simp add: solve_None_iff run_two_zero)
  from budget_monotone [of 0 1 sample_grid hidden_strip sample_solution]
    budget_monotone [of 0 1 sample_grid strip_two sample_solution]
    run_hidden_zero z run_two_one
  show ?thesis by simp
qed

section \<open>The attempt budget and the negative results\<close>

lemma backtrack_tested_bound:
  "tested st \<le> maxAttempts + 1 \<Longrightarrow>
     tested (backtrack stripValues maxAttempts rest currentCombo usedIndices st) \<le> maxAttempts + 1"
  "tested st \<le> maxAttempts + 1 \<Longrightarrow>
     tested (backtrack_loop stripValues maxAttempts rest currentCombo usedIndices st) \<le> maxAttempts + 1"
proof (induction stripValues maxAttempts rest currentCombo usedIndices st
         and stripValues maxAttempts rest currentCombo usedIndices st
       rule: backtrack_backtrack_loop.induct)
  case (1 stripValues maxAttempts rest currentCombo usedIndices st)
  show ?case
  proof (cases "solution_of st \<noteq> None \<or> tested st > maxAttempts")
    case True
    then show ?thesis using "1.prems" by (subst backtrack.simps) simp
  next
    case False
    show ?thesis
    proof (cases "length currentCombo = 8")
      case True
      then show ?thesis using False by (subst backtrack.simps) (simp add: check_combo_tested)
    next
      case len: False
      then show ?thesis using False "1.IH" "1.prems" by (subst backtrack.simps) simp
    qed
  qed
next
  case (2 stripValues maxAttempts currentCombo usedIndices st)
  then show ?case by simp
next
  case (3 stripValues maxAttempts p rest currentCombo usedIndices st)
  show ?case
  proof (cases "solution_of st \<noteq> None")
    case True
    then show ?thesis using "3.prems" by simp
  next
    case False
    show ?thesis
    proof (cases "available_use usedIndices (uses p)")
      case None
      then show ?thesis using False "3.IH"(1) "3.prems" by simp
    next
      case (Some u)
      have "tested (backtrack stripValues maxAttempts rest (currentCombo @ [p])
             (insert (cell_index (mult u)) (insert (cell_index (add u)) usedIndices)) st)
          \<le> maxAttempts + 1"
        using "3.IH"(2) False Some "3.prems" by simp
      then show ?thesis using "3.IH"(3) False Some by simp
    qed
  qed
qed

lemma search_tested_bound:
  "- 1 \<le> maxAttempts \<Longrightarrow> tested (search allPairs stripValues maxAttempts) \<le> maxAttempts + 1"
  unfolding search_def by (rule backtrack_tested_bound) simp

text \<open>
  Claim C2 (a defect of the code). The guard \<open>tested > maxAttempts\<close> is tested before the
  counter is incremented, so the search performs up to \<open>maxAttempts + 1\<close> full-combination
  checks (\<open>search_tested_bound\<close> is the bound that does hold). With a budget of 0 the
  sample grid is still checked once, and that one check returns a solution.
\<close>

theorem zero_budget_still_checks:
  "tested (search (findConsistentPairs sample_grid) hidden_strip 0) = 1 \<and>
   map_option found_tested (findOptimalCombination (findConsistentPairs sample_grid) hidden_strip 0)
     = Some 1 \<and>
   solve sample_grid hidden_strip 0 = Some sample_solution"
proof -
  have "tested (search (findConsistentPairs sample_grid) hidden_strip 0) = 1" by code_simp
  then show ?thesis using run_hidden_zero_found run_hidden_zero by simp
qed

text \<open>
  Claim C3, as amended. \<open>solve\<close> has one negative result, \<open>null\<close>. It is returned when the
  search ends without a solution because the counter passed \<open>maxAttempts\<close>, and equally
  when the search ends without a solution with the counter still within the budget (the
  candidate space was explored to the end); the result carries no reason.
\<close>

theorem not_found_is_null:
  "(over_budget maxAttempts (search (findConsistentPairs gridNumbers) stripValues maxAttempts) \<longrightarrow>
      solve gridNumbers stripValues maxAttempts = None) \<and>
   (solution_of (search (findConsistentPairs gridNumbers) stripValues maxAttempts) = None \<and>
    tested (search (findConsistentPairs gridNumbers) stripValues maxAttempts) \<le> maxAttempts \<longrightarrow>
      solve gridNumbers stripValues maxAttempts = None)"
  by (simp add: solve_None_iff over_budget_def)

theorem not_found_is_null_witness:
  "over_budget 0 (search (findConsistentPairs sample_grid) strip_two 0) \<and>
   solve sample_grid strip_two 0 = None \<and>
   solution_of (search (findConsistentPairs sample_grid) strip_unmatched 50000) = None \<and>
   tested (search (findConsistentPairs sample_grid) strip_unmatched 50000) \<le> 50000 \<and>
   solve sample_grid strip_unmatched 50000 = None"
  using not_found_is_null [of 0 sample_grid strip_two]
    not_found_is_null [of 50000 sample_grid strip_unmatched]
  by (simp add: run_two_zero run_unmatched over_budget_def)

text \<open>
  The claim C3 as stated fails. With budget 0 and the first strip slot known to be 2 the
  search gives up after one check (budget 1 finds the solution), and with a strip that no
  combination matches the search explores everything within its budget; \<open>solve\<close> returns
  the same value in both cases.
\<close>

theorem not_found_reasons_counterexample:
  "over_budget 0 (search (findConsistentPairs sample_grid) strip_two 0) \<and>
   solve sample_grid strip_two 1 = Some sample_solution_two \<and>
   \<not> over_budget 50000 (search (findConsistentPairs sample_grid) strip_unmatched 50000) \<and>
   solve sample_grid strip_two 0 = solve sample_grid strip_unmatched 50000"
proof -
  have a: "solve sample_grid strip_two 0 = None"
    by (simp add: solve_None_iff run_two_zero)
  have b: "solve sample_grid strip_unmatched 50000 = None"
    by (simp add: solve_None_iff run_unmatched)
  show ?thesis using a b run_two_one
    by (simp add: run_two_zero run_unmatched over_budget_def)
qed

section \<open>The pruning loses no solution\<close>

lemma place_keeps_free:
  assumes "cell_free g i" "i \<noteq> cell_index (add u)" "i \<noteq> cell_index (mult u)"
  shows "cell_free (place g ab u) i"
  using assms by (simp add: cell_free_def place_def)

lemma use_indices_Cons:
  "use_indices (u # us) = cell_index (add u) # cell_index (mult u) # use_indices us"
  by (simp add: use_indices_def)

lemma assignment_complete:
  "list_all2 (\<lambda>p u. u \<in> set (uses p)) ps us \<Longrightarrow> distinct (use_indices us) \<Longrightarrow>
     \<forall>i\<in>set (use_indices us). cell_free g i \<Longrightarrow> findGridAssignment ps g \<noteq> None"
  "c \<in> set cs \<Longrightarrow> list_all2 (\<lambda>p u. u \<in> set (uses p)) ps us \<Longrightarrow>
     distinct (use_indices (c # us)) \<Longrightarrow>
     \<forall>i\<in>set (use_indices (c # us)). cell_free g i \<Longrightarrow> try_uses ab cs ps g \<noteq> None"
proof (induction ps g and ab cs ps g arbitrary: us and c us
       rule: findGridAssignment_try_uses.induct)
  case (1 g)
  show ?case by simp
next
  case (2 p ps g)
  from "2.prems"(1) obtain u us' where us: "us = u # us'" "u \<in> set (uses p)"
      "list_all2 (\<lambda>p u. u \<in> set (uses p)) ps us'"
    by (auto simp: list_all2_Cons1)
  show ?case using "2.IH" [OF us(2) us(3)] "2.prems"(2,3) us(1) by simp
next
  case (3 ab ps g)
  then show ?case by simp
next
  case (4 ab u cs ps g)
  have c_fits: "use_fits g c"
    using "4.prems"(3,4) by (simp add: use_fits_def use_indices_Cons)
  have rest_free: "\<forall>i\<in>set (use_indices us). cell_free (place g ab c) i"
  proof
    fix i assume i: "i \<in> set (use_indices us)"
    then have "cell_free g i" using "4.prems"(4) by (simp add: use_indices_Cons)
    moreover have "i \<noteq> cell_index (add c)" "i \<noteq> cell_index (mult c)"
      using i "4.prems"(3) by (auto simp: use_indices_Cons)
    ultimately show "cell_free (place g ab c) i" by (rule place_keeps_free)
  qed
  have rest_distinct: "distinct (use_indices us)"
    using "4.prems"(3) by (simp add: use_indices_Cons)
  show ?case
  proof (cases "use_fits g u")
    case False
    with c_fits have "c \<noteq> u" by blast
    with "4.prems"(1) have "c \<in> set cs" by simp
    then show ?thesis using "4.IH"(3) [OF False _ "4.prems"(2,3,4)] False by simp
  next
    case True
    show ?thesis
    proof (cases "findGridAssignment ps (place g ab u)")
      case (Some r)
      then show ?thesis using True by simp
    next
      case None
      have "c \<noteq> u"
      proof
        assume "c = u"
        then have "findGridAssignment ps (place g ab u) \<noteq> None"
          using "4.IH"(1) [OF True "4.prems"(2) rest_distinct] rest_free by simp
        with None show False by simp
      qed
      with "4.prems"(1) have "c \<in> set cs" by simp
      then show ?thesis using "4.IH"(2) [OF True None _ "4.prems"(2,3,4)] True None by simp
    qed
  qed
qed

lemma valid_choice_assignable:
  assumes "valid_choice combo us"
  shows "findGridAssignment combo (replicate 16 None) \<noteq> None"
proof -
  from assms have a: "list_all2 (\<lambda>p u. u \<in> set (uses p)) combo us"
    and b: "distinct (use_indices us)" and c: "list_all (\<lambda>i. i < 16) (use_indices us)"
    by (simp_all add: valid_choice_def)
  have free: "\<forall>i\<in>set (use_indices us). cell_free (replicate 16 None) i"
    using c by (simp add: cell_free_def list_all_iff)
  show ?thesis by (rule assignment_complete(1) [OF a b free])
qed

lemma grid_as_image: "mset g = image_mset ((!) g) (mset_set {0..<length g})"
proof -
  have "mset (map ((!) g) [0..<length g]) = mset g" by (simp only: map_nth)
  then show ?thesis by simp
qed

lemma choice_values:
  "list_all2 (\<lambda>p u. u \<in> set (uses p)) ps us \<Longrightarrow> \<forall>p\<in>set ps. candidate_ok g p \<Longrightarrow>
     map ((!) g) (use_indices us) = concat (map pair_values ps) \<and>
     set (use_indices us) \<subseteq> {0..<length g}"
proof (induction ps us rule: list_all2_induct)
  case Nil
  show ?case by (simp add: use_indices_def)
next
  case (Cons p ps u us)
  have "use_ok g (pair p) u" using Cons.hyps(1) Cons.prems by (simp add: candidate_ok_def)
  then show ?case using Cons.IH Cons.prems
    by (simp add: use_indices_def pair_values_def use_ok_def)
qed

lemma demand_within_supply:
  assumes "list_all2 (\<lambda>p u. u \<in> set (uses p)) ps us" "distinct (use_indices us)"
    "\<forall>p\<in>set ps. candidate_ok g p"
  shows "combo_values ps \<subseteq># mset g"
proof -
  note cv = choice_values [OF assms(1,3)]
  have "combo_values ps = mset (map ((!) g) (use_indices us))"
    using cv by (simp add: combo_values_def)
  also have "\<dots> = image_mset ((!) g) (mset_set (set (use_indices us)))"
    using assms(2) by (simp add: mset_set_set)
  also have "\<dots> \<subseteq># image_mset ((!) g) (mset_set {0..<length g})"
    using cv by (intro image_mset_subseteq_mono subset_imp_msubset_mset_set) auto
  finally show ?thesis by (simp add: grid_as_image [symmetric])
qed

lemma two_values_two_cells:
  assumes "{#x, y#} \<subseteq># image_mset f (mset_set F)"
  shows "\<exists>j\<in>F. \<exists>i\<in>F. i \<noteq> j \<and> f j = x \<and> f i = y"
proof -
  have ne: "mset_set F \<noteq> {#}" using assms by auto
  then have fin: "finite F" by (auto simp: mset_set_empty_iff)
  have "x \<in># image_mset f (mset_set F)" using assms by (rule mset_subset_eqD) simp
  then obtain j where j: "j \<in> F" "f j = x" using fin by (auto simp: in_image_mset)
  have split: "mset_set F = add_mset j (mset_set (F - {j}))"
    using fin j(1) by (rule mset_set.remove)
  have "add_mset x {#y#} \<subseteq># add_mset x (image_mset f (mset_set (F - {j})))"
    using assms j(2) by (simp add: split add_mset_commute)
  then have "{#y#} \<subseteq># image_mset f (mset_set (F - {j}))"
    by (simp only: mset_subset_eq_add_mset_cancel)
  then have "y \<in># image_mset f (mset_set (F - {j}))" by simp
  then obtain i where "i \<in> F - {j}" "f i = y" using fin by (auto simp: in_image_mset)
  with j show ?thesis by blast
qed

lemma free_use_exists:
  assumes cl: "claimed g combo used"
    and dem: "combo_values (combo @ [p]) \<subseteq># mset g"
    and p: "p \<in> set (findConsistentPairs g)"
  shows "\<exists>u\<in>set (uses p). cell_index (add u) \<notin> used \<and> cell_index (mult u) \<notin> used"
proof -
  let ?F = "{0..<length g} - used"
  let ?s = "fst (pair p) + snd (pair p)" and ?m = "fst (pair p) * snd (pair p)"
  from cl have fin: "finite used" and sub: "used \<subseteq> {0..<length g}"
    and img: "image_mset ((!) g) (mset_set used) = combo_values combo"
    by (simp_all add: claimed_def)
  have "{0..<length g} = used \<union> ?F" using sub by auto
  then have "mset_set {0..<length g} = mset_set used + mset_set ?F"
    using fin by (metis Diff_disjoint finite_Diff finite_atLeastLessThan mset_set_Union)
  then have sup: "mset g = combo_values combo + image_mset ((!) g) (mset_set ?F)"
    using img by (simp add: grid_as_image [of g])
  have "combo_values (combo @ [p]) = combo_values combo + {#?s, ?m#}"
    by (simp add: combo_values_def pair_values_def)
  with dem sup have "combo_values combo + {#?s, ?m#}
      \<subseteq># combo_values combo + image_mset ((!) g) (mset_set ?F)" by simp
  then have "{#?s, ?m#} \<subseteq># image_mset ((!) g) (mset_set ?F)"
    by (simp only: mset_subset_eq_mono_add_left_cancel)
  from two_values_two_cells [OF this] obtain j i where
    ji: "j \<in> ?F" "i \<in> ?F" "i \<noteq> j" "g ! j = ?s" "g ! i = ?m" by blast
  have div: "(fst (pair p), snd (pair p)) \<in> set (getDivisorPairs (g ! i))"
    using candidate_pair_divisor [OF p] ji(5) by (simp only: getDivisorPairs_iff)
  have "make_use g i j \<in> extracted_uses g (pair p)"
    unfolding extracted_uses_def using ji div
    by (intro CollectI exI [of _ i] exI [of _ j]) auto
  then have "make_use g i j \<in> set (uses p)" using candidate_uses [OF p] by simp
  moreover have "cell_index (add (make_use g i j)) \<notin> used"
    "cell_index (mult (make_use g i j)) \<notin> used"
    using ji by (simp_all add: make_use_def)
  ultimately show ?thesis by blast
qed

lemma available_use_Some:
  "available_use used us = Some u \<Longrightarrow>
     u \<in> set us \<and> cell_index (add u) \<notin> used \<and> cell_index (mult u) \<notin> used"
  unfolding available_use_def by (auto simp: find_Some_iff)

lemma available_use_None:
  "available_use used us = None \<longleftrightarrow>
     (\<forall>u\<in>set us. cell_index (add u) \<in> used \<or> cell_index (mult u) \<in> used)"
  unfolding available_use_def by (auto simp: find_None_iff)

lemma claimed_step:
  assumes cl: "claimed g combo used" and ok: "candidate_ok g p"
    and u: "u \<in> set (uses p)" "cell_index (add u) \<notin> used" "cell_index (mult u) \<notin> used"
  shows "claimed g (combo @ [p])
           (insert (cell_index (mult u)) (insert (cell_index (add u)) used))"
proof -
  from cl have fin: "finite used" and sub: "used \<subseteq> {0..<length g}"
    and img: "image_mset ((!) g) (mset_set used) = combo_values combo"
    by (simp_all add: claimed_def)
  from ok u(1) have uo: "use_ok g (pair p) u" by (simp add: candidate_ok_def)
  let ?a = "cell_index (add u)" and ?m = "cell_index (mult u)"
  have 1: "mset_set (insert ?a used) = add_mset ?a (mset_set used)"
    using fin u(2) by simp
  have 2: "mset_set (insert ?m (insert ?a used)) = add_mset ?m (mset_set (insert ?a used))"
    using fin u(3) uo by (simp add: use_ok_def)
  have "image_mset ((!) g) (mset_set (insert ?m (insert ?a used))) =
      combo_values combo + {#g ! ?a, g ! ?m#}"
    using img by (simp add: 1 2)
  also have "\<dots> = combo_values (combo @ [p])"
    using uo by (simp add: combo_values_def pair_values_def use_ok_def)
  finally show ?thesis using fin sub uo by (simp add: claimed_def use_ok_def)
qed

lemma combo_values_prefix:
  "combo_values (combo @ [p]) \<subseteq># combo_values (combo @ p # others)"
  by (simp add: combo_values_def)

lemma finished_backtrack_stays:
  "finished m st \<Longrightarrow> backtrack s m rest combo used st = st"
  by (subst backtrack.simps) (simp add: finished_def)

lemma finished_loop_stays:
  "finished m st \<Longrightarrow> backtrack_loop s m rest combo used st = st"
proof (cases "solution_of st \<noteq> None")
  case True
  then show ?thesis by (rule backtrack_loop_found_stays)
next
  case False
  assume "finished m st"
  with False have "over_budget m st" by (simp add: finished_def over_budget_def)
  then show ?thesis by (rule backtrack_loop_over_budget_stays)
qed

lemma check_combo_finds:
  assumes "matchesKnownValues (buildStripFromPairs combo) stripValues"
    "findGridAssignment combo (replicate 16 None) \<noteq> None"
  shows "solution_of (check_combo stripValues combo st) \<noteq> None"
  using assms by (auto simp: check_combo_def Let_def)

lemma search_reaches_target:
  "set rest \<subseteq> set (findConsistentPairs g) \<Longrightarrow> subseq target rest \<Longrightarrow>
     length (currentCombo @ target) = 8 \<Longrightarrow> claimed g currentCombo usedIndices \<Longrightarrow>
     combo_values (currentCombo @ target) \<subseteq># mset g \<Longrightarrow>
     matchesKnownValues (buildStripFromPairs (currentCombo @ target)) stripValues \<Longrightarrow>
     findGridAssignment (currentCombo @ target) (replicate 16 None) \<noteq> None \<Longrightarrow>
     finished maxAttempts (backtrack stripValues maxAttempts rest currentCombo usedIndices st)"
  "set rest \<subseteq> set (findConsistentPairs g) \<Longrightarrow> subseq target rest \<Longrightarrow> target \<noteq> [] \<Longrightarrow>
     length (currentCombo @ target) = 8 \<Longrightarrow> claimed g currentCombo usedIndices \<Longrightarrow>
     combo_values (currentCombo @ target) \<subseteq># mset g \<Longrightarrow>
     matchesKnownValues (buildStripFromPairs (currentCombo @ target)) stripValues \<Longrightarrow>
     findGridAssignment (currentCombo @ target) (replicate 16 None) \<noteq> None \<Longrightarrow>
     finished maxAttempts (backtrack_loop stripValues maxAttempts rest currentCombo usedIndices st)"
proof (induction stripValues maxAttempts rest currentCombo usedIndices st
         and stripValues maxAttempts rest currentCombo usedIndices st
       arbitrary: target and target
       rule: backtrack_backtrack_loop.induct)
  case (1 stripValues maxAttempts rest currentCombo usedIndices st)
  show ?case
  proof (cases "finished maxAttempts st")
    case True
    then show ?thesis by (simp add: finished_backtrack_stays)
  next
    case False
    then have go: "\<not> (solution_of st \<noteq> None \<or> tested st > maxAttempts)"
      by (simp add: finished_def)
    show ?thesis
    proof (cases "length currentCombo = 8")
      case True
      with "1.prems"(3) have "target = []" by simp
      then have "solution_of (check_combo stripValues currentCombo st) \<noteq> None"
        using check_combo_finds "1.prems"(6,7) by simp
      moreover have "backtrack stripValues maxAttempts rest currentCombo usedIndices st =
          check_combo stripValues currentCombo st"
        using go True by (subst backtrack.simps) simp
      ultimately show ?thesis by (simp add: finished_def)
    next
      case False
      with "1.prems"(3) have ne: "target \<noteq> []" by auto
      have "backtrack stripValues maxAttempts rest currentCombo usedIndices st =
          backtrack_loop stripValues maxAttempts rest currentCombo usedIndices st"
        using go False by (subst backtrack.simps) simp
      then show ?thesis
        using "1.IH" [OF go False "1.prems"(1,2) ne "1.prems"(3,4,5,6,7)] by simp
    qed
  qed
next
  case (2 stripValues maxAttempts currentCombo usedIndices st)
  then show ?case by simp
next
  case (3 stripValues maxAttempts p rest currentCombo usedIndices st)
  from "3.prems"(3) obtain t others where target: "target = t # others" by (cases target) auto
  have p_in: "p \<in> set (findConsistentPairs g)" and rest_in: "set rest \<subseteq> set (findConsistentPairs g)"
    using "3.prems"(1) by simp_all
  show ?case
  proof (cases "solution_of st \<noteq> None")
    case True
    then show ?thesis by (simp add: finished_def)
  next
    case False
    show ?thesis
    proof (cases "t = p")
      case True
      have sub: "subseq others rest" using "3.prems"(2) target True by simp
      have "combo_values (currentCombo @ [p]) \<subseteq># combo_values (currentCombo @ target)"
        using target True combo_values_prefix by simp
      then have dem: "combo_values (currentCombo @ [p]) \<subseteq># mset g"
        using "3.prems"(6) by (rule subset_mset.order_trans)
      from free_use_exists [OF "3.prems"(5) dem p_in]
      have "available_use usedIndices (uses p) \<noteq> None" by (auto simp: available_use_None)
      then obtain u where u: "available_use usedIndices (uses p) = Some u" by blast
      let ?used = "insert (cell_index (mult u)) (insert (cell_index (add u)) usedIndices)"
      let ?s1 = "backtrack stripValues maxAttempts rest (currentCombo @ [p]) ?used st"
      have cl: "claimed g (currentCombo @ [p]) ?used"
        using claimed_step [OF "3.prems"(5) extracted_candidate_ok [OF p_in]]
          available_use_Some [OF u] by blast
      have eq: "(currentCombo @ [p]) @ others = currentCombo @ target"
        using target True by simp
      have len': "length ((currentCombo @ [p]) @ others) = 8"
        unfolding eq by (rule "3.prems"(4))
      have dem': "combo_values ((currentCombo @ [p]) @ others) \<subseteq># mset g"
        unfolding eq by (rule "3.prems"(6))
      have mat': "matchesKnownValues (buildStripFromPairs ((currentCombo @ [p]) @ others))
          stripValues"
        unfolding eq by (rule "3.prems"(7))
      have fga': "findGridAssignment ((currentCombo @ [p]) @ others) (replicate 16 None) \<noteq> None"
        unfolding eq by (rule "3.prems"(8))
      have "finished maxAttempts ?s1"
        by (rule "3.IH"(2) [OF False u rest_in sub len' cl dem' mat' fga'])
      then have "backtrack_loop stripValues maxAttempts rest currentCombo usedIndices ?s1 = ?s1"
        by (rule finished_loop_stays)
      then show ?thesis using False u \<open>finished maxAttempts ?s1\<close> by simp
    next
      case neq: False
      have sub: "subseq target rest" using "3.prems"(2) target neq by simp
      show ?thesis
      proof (cases "available_use usedIndices (uses p)")
        case None
        then show ?thesis
          using "3.IH"(1) [OF False None rest_in sub "3.prems"(3,4,5,6,7,8)] False by simp
      next
        case (Some u)
        let ?used = "insert (cell_index (mult u)) (insert (cell_index (add u)) usedIndices)"
        let ?s1 = "backtrack stripValues maxAttempts rest (currentCombo @ [p]) ?used st"
        have "finished maxAttempts
            (backtrack_loop stripValues maxAttempts rest currentCombo usedIndices ?s1)"
          using "3.IH"(3) [OF False Some rest_in sub "3.prems"(3,4,5,6,7,8)] by simp
        then show ?thesis using False Some by simp
      qed
    qed
  qed
qed

lemma subseq_members: "subseq xs ys \<Longrightarrow> set xs \<subseteq> set ys"
  by (induction rule: list_emb.induct) auto

lemma search_complete:
  assumes sub: "subseq combo (findConsistentPairs g)" and len: "length combo = 8"
    and mat: "matchesKnownValues (buildStripFromPairs combo) stripValues"
    and vc: "valid_choice combo chosen"
  shows "finished maxAttempts (search (findConsistentPairs g) stripValues maxAttempts)"
proof -
  have ok: "\<forall>p\<in>set combo. candidate_ok g p"
    using subseq_members [OF sub] extracted_candidate_ok by blast
  have dem: "combo_values ([] @ combo) \<subseteq># mset g"
    using demand_within_supply [of combo chosen g] vc ok by (simp add: valid_choice_def)
  have cl: "claimed g [] {}" by (simp add: claimed_def combo_values_def)
  have fga: "findGridAssignment ([] @ combo) (replicate 16 None) \<noteq> None"
    using valid_choice_assignable [OF vc] by simp
  show ?thesis unfolding search_def
    using search_reaches_target(1) [of "findConsistentPairs g" g combo "[]" "{}" stripValues]
      sub len cl dem mat fga by simp
qed

lemma nodes_Suc: "nodes n k \<le> nodes (Suc n) k"
proof (cases "8 - k")
  case 0
  then show ?thesis by (simp add: nodes_def)
next
  case (Suc j)
  then show ?thesis by (simp add: nodes_def)
qed

lemma nodes_split: "k \<noteq> 8 \<Longrightarrow> nodes n (Suc k) + nodes n k = nodes (Suc n) k"
proof (cases "k < 8")
  case True
  then obtain j where j: "8 - k = Suc j" by (cases "8 - k") auto
  then have "8 - Suc k = j" by simp
  with True j show ?thesis by (simp add: nodes_def)
next
  case False
  assume "k \<noteq> 8"
  with False show ?thesis by (simp add: nodes_def)
qed

lemma backtrack_tested_nodes:
  "tested (backtrack stripValues maxAttempts rest currentCombo usedIndices st)
     \<le> tested st + int (nodes (length rest) (length currentCombo))"
  "length currentCombo \<noteq> 8 \<Longrightarrow>
     tested (backtrack_loop stripValues maxAttempts rest currentCombo usedIndices st)
     \<le> tested st + int (nodes (length rest) (length currentCombo))"
proof (induction stripValues maxAttempts rest currentCombo usedIndices st
         and stripValues maxAttempts rest currentCombo usedIndices st
       rule: backtrack_backtrack_loop.induct)
  case (1 stripValues maxAttempts rest currentCombo usedIndices st)
  show ?case
  proof (cases "solution_of st \<noteq> None \<or> tested st > maxAttempts")
    case True
    then show ?thesis by (subst backtrack.simps) simp
  next
    case False
    show ?thesis
    proof (cases "length currentCombo = 8")
      case True
      then show ?thesis using False
        by (subst backtrack.simps) (simp add: check_combo_tested nodes_def)
    next
      case len: False
      then show ?thesis using False "1.IH" by (subst backtrack.simps) simp
    qed
  qed
next
  case (2 stripValues maxAttempts currentCombo usedIndices st)
  show ?case by simp
next
  case (3 stripValues maxAttempts p rest currentCombo usedIndices st)
  let ?k = "length currentCombo" and ?n = "length rest"
  show ?case
  proof (cases "solution_of st \<noteq> None")
    case True
    then show ?thesis by simp
  next
    case False
    show ?thesis
    proof (cases "available_use usedIndices (uses p)")
      case None
      have "tested (backtrack_loop stripValues maxAttempts rest currentCombo usedIndices st)
          \<le> tested st + int (nodes ?n ?k)"
        using "3.IH"(1) False None "3.prems" by simp
      also have "\<dots> \<le> tested st + int (nodes (Suc ?n) ?k)" using nodes_Suc [of ?n ?k] by simp
      finally show ?thesis using False None by simp
    next
      case (Some u)
      let ?used = "insert (cell_index (mult u)) (insert (cell_index (add u)) usedIndices)"
      let ?s1 = "backtrack stripValues maxAttempts rest (currentCombo @ [p]) ?used st"
      have a: "tested ?s1 \<le> tested st + int (nodes ?n (Suc ?k))"
        using "3.IH"(2) [OF False Some] by simp
      have "tested (backtrack_loop stripValues maxAttempts rest currentCombo usedIndices ?s1)
          \<le> tested ?s1 + int (nodes ?n ?k)"
        using "3.IH"(3) [OF False Some "3.prems"] .
      also have "\<dots> \<le> tested st + int (nodes ?n (Suc ?k) + nodes ?n ?k)" using a by simp
      also have "nodes ?n (Suc ?k) + nodes ?n ?k = nodes (Suc ?n) ?k"
        using "3.prems" by (rule nodes_split)
      finally show ?thesis using False Some by simp
    qed
  qed
qed

lemma search_tested_nodes:
  "tested (search allPairs stripValues maxAttempts) \<le> int (length allPairs choose 8)"
  unfolding search_def
  using backtrack_tested_nodes(1) [of stripValues maxAttempts allPairs "[]" "{}"
      "\<lparr>tested = 0, solution_of = None\<rparr>"]
  by (simp add: nodes_def)

section \<open>The order of extraction and of search\<close>

lemma place_free_before:
  assumes "use_fits g u" "cell_free (place g ab u) i"
  shows "cell_free g i \<and> i \<noteq> cell_index (add u) \<and> i \<noteq> cell_index (mult u)"
proof -
  from assms(1) have a: "cell_index (add u) < length g" and m: "cell_index (mult u) < length g"
    by (simp_all add: use_fits_def cell_free_def)
  from assms(2) have i: "i < length g" and free: "place g ab u ! i = None"
    by (simp_all add: cell_free_def place_length)
  have nm: "i \<noteq> cell_index (mult u)"
  proof
    assume "i = cell_index (mult u)"
    then have "place g ab u ! i = times_cell ab" using m by (simp add: place_eq)
    with free show False by (simp add: times_cell_def)
  qed
  have na: "i \<noteq> cell_index (add u)"
  proof
    assume "i = cell_index (add u)"
    then have "place g ab u ! i = plus_cell ab" using a nm by (simp add: place_eq)
    with free show False by (simp add: plus_cell_def)
  qed
  from na nm have "place g ab u ! i = g ! i" by (simp add: place_eq)
  with free i na nm show ?thesis by (simp add: cell_free_def)
qed

lemma assignment_choice:
  "findGridAssignment ps g = Some r \<Longrightarrow>
     \<exists>us. list_all2 (\<lambda>p u. u \<in> set (uses p)) ps us \<and> distinct (use_indices us) \<and>
          (\<forall>i\<in>set (use_indices us). cell_free g i)"
  "try_uses ab cs ps g = Some r \<Longrightarrow>
     \<exists>c us. c \<in> set cs \<and> list_all2 (\<lambda>p u. u \<in> set (uses p)) ps us \<and>
          distinct (use_indices (c # us)) \<and> (\<forall>i\<in>set (use_indices (c # us)). cell_free g i)"
proof (induction ps g and ab cs ps g arbitrary: r and r
       rule: findGridAssignment_try_uses.induct)
  case (1 g)
  show ?case by (simp add: use_indices_def)
next
  case (2 p ps g)
  from "2.prems" have "try_uses (pair p) (uses p) ps g = Some r" by simp
  from "2.IH" [OF this] obtain c us where
    "c \<in> set (uses p)" "list_all2 (\<lambda>p u. u \<in> set (uses p)) ps us"
    "distinct (use_indices (c # us))" "\<forall>i\<in>set (use_indices (c # us)). cell_free g i"
    by blast
  then have "list_all2 (\<lambda>p u. u \<in> set (uses p)) (p # ps) (c # us) \<and>
      distinct (use_indices (c # us)) \<and> (\<forall>i\<in>set (use_indices (c # us)). cell_free g i)"
    by simp
  then show ?case by blast
next
  case (3 ab ps g)
  then show ?case by simp
next
  case (4 ab u cs ps g)
  have later: ?case if "try_uses ab cs ps g = Some r"
    and ih: "\<And>r. try_uses ab cs ps g = Some r \<Longrightarrow>
       \<exists>c us. c \<in> set cs \<and> list_all2 (\<lambda>p u. u \<in> set (uses p)) ps us \<and>
          distinct (use_indices (c # us)) \<and> (\<forall>i\<in>set (use_indices (c # us)). cell_free g i)"
  proof -
    from ih [OF that(1)] obtain c us where
      "c \<in> set cs" "list_all2 (\<lambda>p u. u \<in> set (uses p)) ps us"
      "distinct (use_indices (c # us))" "\<forall>i\<in>set (use_indices (c # us)). cell_free g i"
      by blast
    then have "c \<in> set (u # cs) \<and> list_all2 (\<lambda>p u. u \<in> set (uses p)) ps us \<and>
      distinct (use_indices (c # us)) \<and> (\<forall>i\<in>set (use_indices (c # us)). cell_free g i)"
      by simp
    then show ?thesis by blast
  qed
  show ?case
  proof (cases "use_fits g u")
    case False
    then have "try_uses ab cs ps g = Some r" using "4.prems" by simp
    then show ?thesis using later "4.IH"(3) [OF False] by blast
  next
    case True
    show ?thesis
    proof (cases "findGridAssignment ps (place g ab u)")
      case None
      then have "try_uses ab cs ps g = Some r" using "4.prems" True by simp
      then show ?thesis using later "4.IH"(2) [OF True None] by blast
    next
      case (Some r')
      from "4.IH"(1) [OF True Some] obtain us where
        us: "list_all2 (\<lambda>p u. u \<in> set (uses p)) ps us" "distinct (use_indices us)"
          "\<forall>i\<in>set (use_indices us). cell_free (place g ab u) i"
        by blast
      have before: "\<forall>i\<in>set (use_indices us).
          cell_free g i \<and> i \<noteq> cell_index (add u) \<and> i \<noteq> cell_index (mult u)"
        using us(3) place_free_before [OF True] by blast
      have "distinct (use_indices (u # us))"
        using us(2) before True by (auto simp: use_indices_Cons use_fits_def)
      moreover have "\<forall>i\<in>set (use_indices (u # us)). cell_free g i"
        using before True by (auto simp: use_indices_Cons use_fits_def)
      ultimately have "u \<in> set (u # cs) \<and> list_all2 (\<lambda>p u. u \<in> set (uses p)) ps us \<and>
          distinct (use_indices (u # us)) \<and> (\<forall>i\<in>set (use_indices (u # us)). cell_free g i)"
        using us(1) by simp
      then show ?thesis by blast
    qed
  qed
qed

lemma assignable_valid_choice:
  assumes "findGridAssignment combo (replicate 16 None) \<noteq> None"
  shows "\<exists>chosen. valid_choice combo chosen"
proof -
  from assms obtain r where "findGridAssignment combo (replicate 16 None) = Some r" by blast
  from assignment_choice(1) [OF this] obtain us where
    us: "list_all2 (\<lambda>p u. u \<in> set (uses p)) combo us" "distinct (use_indices us)"
      "\<forall>i\<in>set (use_indices us). cell_free (replicate 16 None) i"
    by blast
  from us(3) have "list_all (\<lambda>i. i < 16) (use_indices us)"
    by (simp add: cell_free_def list_all_iff)
  with us(1,2) have "valid_choice combo us" by (simp add: valid_choice_def)
  then show ?thesis by blast
qed

lemma combos_members: "c \<in> set (combos k xs) \<Longrightarrow> subseq c xs \<and> length c = k"
proof (induction k xs arbitrary: c rule: combos.induct)
  case (1 xs)
  then show ?case by simp
next
  case (2 k)
  then show ?case by simp
next
  case (3 k x xs)
  from "3.prems" consider (a) c' where "c = x # c'" "c' \<in> set (combos k xs)"
    | (b) "c \<in> set (combos (Suc k) xs)" by auto
  then show ?case
  proof cases
    case a
    with "3.IH"(1) [of c'] show ?thesis by simp
  next
    case b
    with "3.IH"(2) [of c] show ?thesis by auto
  qed
qed

lemma accepts_solution_from: "accepts s c \<longleftrightarrow>
    matchesKnownValues (buildStripFromPairs c) s \<and> solution_from c \<noteq> None"
  by (simp add: accepts_def solution_from_def)

lemma first_in_Nil: "first_in s [] = None"
  by (simp add: first_in_def)

lemma first_in_single: "first_in s [c] = (if accepts s c then solution_from c else None)"
  by (simp add: first_in_def)

lemma first_in_None: "first_in s cs = None \<longleftrightarrow> (\<forall>c\<in>set cs. \<not> accepts s c)"
proof (induction cs)
  case Nil
  show ?case by (simp add: first_in_def)
next
  case (Cons c cs)
  then show ?case by (auto simp: first_in_def accepts_solution_from)
qed

lemma first_in_append:
  "first_in s (xs @ ys) = (case first_in s xs of None \<Rightarrow> first_in s ys | Some x \<Rightarrow> Some x)"
proof (induction xs)
  case Nil
  show ?case by (simp add: first_in_Nil)
next
  case (Cons c xs)
  show ?case
  proof (cases "accepts s c")
    case True
    then obtain x where "solution_from c = Some x" by (auto simp: accepts_solution_from)
    with True show ?thesis by (simp add: first_in_def)
  next
    case False
    have "first_in s (c # zs) = first_in s zs" for zs using False by (simp add: first_in_def)
    with Cons show ?thesis by simp
  qed
qed

lemma outcome_check_combo:
  assumes "solution_of st = None"
  shows "outcome_of (check_combo s combo st) = first_in s [combo]"
proof (cases "matchesKnownValues (buildStripFromPairs combo) s")
  case False
  then show ?thesis using assms
    by (simp add: check_combo_def first_in_single accepts_def outcome_of_def)
next
  case True
  show ?thesis
  proof (cases "findGridAssignment combo (replicate 16 None)")
    case None
    then show ?thesis using assms True
      by (simp add: check_combo_def first_in_single accepts_def outcome_of_def)
  next
    case (Some a)
    then show ?thesis using True
      by (simp add: check_combo_def first_in_single accepts_def outcome_of_def
          solution_from_def Let_def)
  qed
qed

lemma accepted_needs_free_use:
  assumes cl: "claimed g combo used"
    and c: "set combo \<subseteq> set (findConsistentPairs g)"
    and p: "p \<in> set (findConsistentPairs g)"
    and t: "set others \<subseteq> set (findConsistentPairs g)"
    and acc: "accepts s ((combo @ [p]) @ others)"
  shows "available_use used (uses p) \<noteq> None"
proof -
  let ?c = "(combo @ [p]) @ others"
  from acc have "findGridAssignment ?c (replicate 16 None) \<noteq> None" by (simp add: accepts_def)
  then obtain r where "findGridAssignment ?c (replicate 16 None) = Some r" by blast
  from assignment_choice(1) [OF this] obtain us where
    us: "list_all2 (\<lambda>p u. u \<in> set (uses p)) ?c us" "distinct (use_indices us)" by blast
  have ok: "\<forall>q\<in>set ?c. candidate_ok g q"
    using c p t extracted_candidate_ok by auto
  have "combo_values ?c \<subseteq># mset g" by (rule demand_within_supply [OF us ok])
  moreover have "combo_values (combo @ [p]) \<subseteq># combo_values ?c"
    using combo_values_prefix [of combo p others] by simp
  ultimately have "combo_values (combo @ [p]) \<subseteq># mset g"
    by (rule subset_mset.order_trans [rotated])
  from free_use_exists [OF cl this p] show ?thesis by (auto simp: available_use_None)
qed

lemma search_first_accepted:
  "set rest \<subseteq> set (findConsistentPairs g) \<Longrightarrow> set currentCombo \<subseteq> set (findConsistentPairs g) \<Longrightarrow>
     claimed g currentCombo usedIndices \<Longrightarrow> length currentCombo \<le> 8 \<Longrightarrow>
     solution_of st = None \<Longrightarrow>
     over_budget maxAttempts (backtrack stripValues maxAttempts rest currentCombo usedIndices st) \<or>
     outcome_of (backtrack stripValues maxAttempts rest currentCombo usedIndices st) =
       first_in stripValues (map ((@) currentCombo) (combos (8 - length currentCombo) rest))"
  "set rest \<subseteq> set (findConsistentPairs g) \<Longrightarrow> set currentCombo \<subseteq> set (findConsistentPairs g) \<Longrightarrow>
     claimed g currentCombo usedIndices \<Longrightarrow> length currentCombo < 8 \<Longrightarrow>
     solution_of st = None \<Longrightarrow>
     over_budget maxAttempts (backtrack_loop stripValues maxAttempts rest currentCombo usedIndices st) \<or>
     outcome_of (backtrack_loop stripValues maxAttempts rest currentCombo usedIndices st) =
       first_in stripValues (map ((@) currentCombo) (combos (8 - length currentCombo) rest))"
proof (induction stripValues maxAttempts rest currentCombo usedIndices st
         and stripValues maxAttempts rest currentCombo usedIndices st
       rule: backtrack_backtrack_loop.induct)
  case (1 stripValues maxAttempts rest currentCombo usedIndices st)
  show ?case
  proof (cases "tested st > maxAttempts")
    case True
    then have "over_budget maxAttempts st" using "1.prems"(5) by (simp add: over_budget_def)
    then show ?thesis by (simp add: backtrack_over_budget_stays)
  next
    case False
    then have go: "\<not> (solution_of st \<noteq> None \<or> tested st > maxAttempts)"
      using "1.prems"(5) by simp
    show ?thesis
    proof (cases "length currentCombo = 8")
      case True
      have "backtrack stripValues maxAttempts rest currentCombo usedIndices st =
          check_combo stripValues currentCombo st"
        using go True by (subst backtrack.simps) simp
      then show ?thesis using True outcome_check_combo [OF "1.prems"(5)] by simp
    next
      case ne: False
      with "1.prems"(4) have lt: "length currentCombo < 8" by simp
      have "backtrack stripValues maxAttempts rest currentCombo usedIndices st =
          backtrack_loop stripValues maxAttempts rest currentCombo usedIndices st"
        using go ne by (subst backtrack.simps) simp
      then show ?thesis
        using "1.IH" [OF go ne "1.prems"(1,2,3) lt "1.prems"(5)] by simp
    qed
  qed
next
  case (2 stripValues maxAttempts currentCombo usedIndices st)
  from "2.prems"(4) obtain j where "8 - length currentCombo = Suc j"
    by (cases "8 - length currentCombo") auto
  then show ?case using "2.prems"(5) by (simp add: first_in_Nil outcome_of_def)
next
  case (3 stripValues maxAttempts p rest currentCombo usedIndices st)
  let ?k = "length currentCombo"
  from "3.prems"(4) obtain j where j: "8 - ?k = Suc j" by (cases "8 - ?k") auto
  then have j': "8 - length (currentCombo @ [p]) = j" by simp
  have p_in: "p \<in> set (findConsistentPairs g)"
    and rest_in: "set rest \<subseteq> set (findConsistentPairs g)"
    using "3.prems"(1) by simp_all
  let ?L1 = "map ((@) (currentCombo @ [p])) (combos j rest)"
  let ?L2 = "map ((@) currentCombo) (combos (Suc j) rest)"
  have split: "map ((@) currentCombo) (combos (8 - ?k) (p # rest)) = ?L1 @ ?L2"
    by (simp add: j)
  have none: "solution_of st = None" by (rule "3.prems"(5))
  then have nn: "\<not> solution_of st \<noteq> None" by simp
  show ?case
  proof (cases "available_use usedIndices (uses p)")
    case None
    have "\<not> accepts stripValues c" if "c \<in> set ?L1" for c
    proof
      assume acc: "accepts stripValues c"
      from that obtain others where o: "c = (currentCombo @ [p]) @ others"
          "others \<in> set (combos j rest)" by auto
      from combos_members [OF o(2)] have "set others \<subseteq> set rest"
        by (auto dest: subseq_members)
      with rest_in have "set others \<subseteq> set (findConsistentPairs g)" by blast
      from accepted_needs_free_use [OF "3.prems"(3,2) p_in this] acc o(1) None
      show False by simp
    qed
    then have "first_in stripValues ?L1 = None" by (simp only: first_in_None) blast
    then have "first_in stripValues (?L1 @ ?L2) = first_in stripValues ?L2"
      by (simp add: first_in_append)
    moreover have "backtrack_loop stripValues maxAttempts (p # rest) currentCombo usedIndices st =
        backtrack_loop stripValues maxAttempts rest currentCombo usedIndices st"
      using none None by simp
    moreover have "over_budget maxAttempts
          (backtrack_loop stripValues maxAttempts rest currentCombo usedIndices st) \<or>
        outcome_of (backtrack_loop stripValues maxAttempts rest currentCombo usedIndices st) =
          first_in stripValues ?L2"
      using "3.IH"(1) [OF nn None rest_in "3.prems"(2,3,4,5)] unfolding j .
    ultimately show ?thesis by (simp only: split)
  next
    case (Some u)
    let ?used = "insert (cell_index (mult u)) (insert (cell_index (add u)) usedIndices)"
    let ?s1 = "backtrack stripValues maxAttempts rest (currentCombo @ [p]) ?used st"
    let ?r = "backtrack_loop stripValues maxAttempts rest currentCombo usedIndices ?s1"
    have r: "backtrack_loop stripValues maxAttempts (p # rest) currentCombo usedIndices st = ?r"
      using none Some by simp
    have cl: "claimed g (currentCombo @ [p]) ?used"
      using claimed_step [OF "3.prems"(3) extracted_candidate_ok [OF p_in]]
        available_use_Some [OF Some] by blast
    have sub': "set (currentCombo @ [p]) \<subseteq> set (findConsistentPairs g)"
      using "3.prems"(2) p_in by simp
    have len': "length (currentCombo @ [p]) \<le> 8" using "3.prems"(4) by simp
    have inner: "over_budget maxAttempts ?s1 \<or> outcome_of ?s1 = first_in stripValues ?L1"
      using "3.IH"(2) [OF nn Some rest_in sub' cl len' none] unfolding j' .
    show ?thesis
    proof (cases "over_budget maxAttempts ?s1")
      case True
      then have "?r = ?s1" by (rule backtrack_loop_over_budget_stays)
      with True r show ?thesis by simp
    next
      case nb: False
      with inner have out: "outcome_of ?s1 = first_in stripValues ?L1" by simp
      show ?thesis
      proof (cases "solution_of ?s1 \<noteq> None")
        case True
        then have "?r = ?s1" by (rule backtrack_loop_found_stays)
        moreover from True obtain x where "outcome_of ?s1 = Some x"
          by (auto simp: outcome_of_def)
        ultimately show ?thesis using out r by (simp add: split first_in_append)
      next
        case False
        then have s1_none: "solution_of ?s1 = None" by simp
        then have "first_in stripValues ?L1 = None" using out by (simp add: outcome_of_def)
        then have app: "first_in stripValues (?L1 @ ?L2) = first_in stripValues ?L2"
          by (simp add: first_in_append)
        have "over_budget maxAttempts ?r \<or> outcome_of ?r = first_in stripValues ?L2"
          using "3.IH"(3) [OF nn Some rest_in "3.prems"(2,3,4) s1_none] unfolding j .
        then show ?thesis using r app by (simp only: split)
      qed
    qed
  qed
qed

lemma outcome_of_search: "solve g s m = outcome_of (search (findConsistentPairs g) s m)"
  by (simp add: solve_def findOptimalCombination_def outcome_of_def split: option.splits)

lemma solve_first_solution:
  "solve g s m =
     (if over_budget m (search (findConsistentPairs g) s m) then None
      else first_solution (findConsistentPairs g) s)"
proof (cases "over_budget m (search (findConsistentPairs g) s m)")
  case True
  then show ?thesis by (simp add: solve_None_iff over_budget_def)
next
  case False
  have "over_budget m (search (findConsistentPairs g) s m) \<or>
      outcome_of (search (findConsistentPairs g) s m) =
        first_in s (map ((@) []) (combos (8 - length ([] :: candidate list)) (findConsistentPairs g)))"
    unfolding search_def
    by (rule search_first_accepted(1) [where g = g]) (simp_all add: claimed_def combo_values_def)
  moreover have "(@) ([] :: candidate list) = (\<lambda>x. x)" by (rule ext) simp
  ultimately show ?thesis using False by (simp add: outcome_of_search first_solution_def)
qed

lemma within_budget:
  assumes "int (length allPairs choose 8) \<le> m"
  shows "\<not> over_budget m (search allPairs s m)"
  using search_tested_nodes [of allPairs s m] assms by (simp add: over_budget_def)

lemma record_events_append:
  "record_events cs (xs @ ys) = record_events (record_events cs xs) ys"
  by (simp add: record_events_def)

lemma pair_steps_events:
  "foldl (pair_step g i j) cs mps =
     record_events cs (map (\<lambda>k. (k, make_use g i j)) (filter (\<lambda>k. fst k + snd k = g ! j) mps))"
  by (induction mps arbitrary: cs) (simp_all add: record_events_def pair_step_def)

lemma add_step_events: "add_step g i mps cs j = record_events cs (add_events g i mps j)"
  by (simp add: add_step_def add_events_def pair_steps_events record_events_def)

lemma add_steps_events:
  "foldl (add_step g i mps) cs js = record_events cs (concat (map (add_events g i mps) js))"
proof (induction js arbitrary: cs)
  case Nil
  show ?case by (simp add: record_events_def)
next
  case (Cons j js)
  have step: "add_step g i mps cs j = record_events cs (add_events g i mps j)"
    by (rule add_step_events)
  have "foldl (add_step g i mps) cs (j # js) =
      record_events (add_step g i mps cs j) (concat (map (add_events g i mps) js))"
    using Cons.IH [of "add_step g i mps cs j"] by simp
  also have "\<dots> = record_events (record_events cs (add_events g i mps j))
      (concat (map (add_events g i mps) js))"
    by (simp only: step)
  also have "\<dots> = record_events cs (concat (map (add_events g i mps) (j # js)))"
    by (simp add: record_events_append)
  finally show ?case .
qed

lemma mult_step_events: "mult_step g cs i = record_events cs (mult_events g i)"
  by (simp add: mult_step_def mult_events_def add_steps_events)

lemma mult_steps_events:
  "foldl (mult_step g) cs js = record_events cs (concat (map (mult_events g) js))"
proof (induction js arbitrary: cs)
  case Nil
  show ?case by (simp add: record_events_def)
next
  case (Cons j js)
  have step: "mult_step g cs j = record_events cs (mult_events g j)"
    by (rule mult_step_events)
  have "foldl (mult_step g) cs (j # js) =
      record_events (mult_step g cs j) (concat (map (mult_events g) js))"
    using Cons.IH [of "mult_step g cs j"] by simp
  also have "\<dots> = record_events (record_events cs (mult_events g j))
      (concat (map (mult_events g) js))"
    by (simp only: step)
  also have "\<dots> = record_events cs (concat (map (mult_events g) (j # js)))"
    by (simp add: record_events_append)
  finally show ?case .
qed

lemma findConsistentPairs_events:
  "findConsistentPairs g = record_events [] (extraction_events g)"
  by (simp add: findConsistentPairs_def extraction_events_def mult_steps_events)

lemma keys_in_order_set: "set (keys_in_order es) = fst ` set es"
  by (simp add: keys_in_order_def)

lemma keys_in_order_distinct: "distinct (keys_in_order es)"
  by (simp add: keys_in_order_def)

lemma keys_in_order_snoc:
  "keys_in_order (es @ [e]) =
     (if fst e \<in> fst ` set es then keys_in_order es else keys_in_order es @ [fst e])"
  by (simp add: keys_in_order_def)

lemma entry_of_snoc_other: "k' \<noteq> k \<Longrightarrow> entry_of (es @ [(k, u)]) k' = entry_of es k'"
  by (simp add: entry_of_def)

lemma entry_of_snoc_same:
  "entry_of (es @ [(k, u)]) k = (entry_of es k)\<lparr>uses := uses (entry_of es k) @ [u]\<rparr>"
  by (simp add: entry_of_def)

lemma record_use_present:
  "distinct ks \<Longrightarrow> k \<in> set ks \<Longrightarrow>
     record_use k u (map (entry_of es) ks) = map (entry_of (es @ [(k, u)])) ks"
proof (induction ks)
  case Nil
  then show ?case by simp
next
  case (Cons a ks)
  show ?case
  proof (cases "a = k")
    case True
    then have "\<forall>k'\<in>set ks. k' \<noteq> k" using Cons.prems(1) by auto
    then have "map (entry_of (es @ [(k, u)])) ks = map (entry_of es) ks"
      by (simp add: entry_of_snoc_other)
    then show ?thesis using True by (simp add: entry_of_snoc_same) (simp add: entry_of_def)
  next
    case False
    then have "k \<in> set ks" using Cons.prems(2) by simp
    then show ?thesis using False Cons.IH Cons.prems(1)
      by (simp add: entry_of_snoc_other) (simp add: entry_of_def)
  qed
qed

lemma record_use_absent:
  "k \<notin> set ks \<Longrightarrow>
     record_use k u (map (entry_of es) ks) =
       map (entry_of (es @ [(k, u)])) ks @ [\<lparr>pair = k, uses = [u]\<rparr>]"
proof (induction ks)
  case Nil
  then show ?case by simp
next
  case (Cons a ks)
  then have "a \<noteq> k" by auto
  then show ?case using Cons by (simp add: entry_of_snoc_other) (simp add: entry_of_def)
qed

lemma group_events_snoc:
  "group_events (es @ [(k, u)]) = record_use k u (group_events es)"
proof (cases "k \<in> fst ` set es")
  case True
  then have "k \<in> set (keys_in_order es)" by (simp add: keys_in_order_set)
  then show ?thesis using True
    by (simp add: group_events_def keys_in_order_snoc record_use_present keys_in_order_distinct)
next
  case False
  then have notin: "k \<notin> set (keys_in_order es)" by (simp add: keys_in_order_set)
  have "\<forall>e\<in>set es. fst e \<noteq> k" using False by auto
  then have "filter (\<lambda>e. fst e = k) es = []" by (simp add: filter_empty_conv)
  then have "entry_of (es @ [(k, u)]) k = \<lparr>pair = k, uses = [u]\<rparr>" by (simp add: entry_of_def)
  then show ?thesis using False
    by (simp add: group_events_def keys_in_order_snoc record_use_absent [OF notin])
qed

lemma record_events_group: "record_events [] es = group_events es"
proof (induction es rule: rev_induct)
  case Nil
  show ?case by (simp add: record_events_def group_events_def keys_in_order_def)
next
  case (snoc e es)
  obtain k u where e: "e = (k, u)" by (cases e)
  show ?case by (simp add: record_events_append snoc.IH e group_events_snoc)
      (simp add: record_events_def)
qed

lemma findConsistentPairs_grouped:
  "findConsistentPairs g = group_events (extraction_events g)"
  by (simp add: findConsistentPairs_events record_events_group)

section \<open>No solution is lost, and the result is determined\<close>

lemma first_solution_verified:
  assumes "first_solution (findConsistentPairs g) s = Some sol"
  shows "verified_solution g s sol"
proof -
  from assms obtain c where
    f: "find (accepts s) (combos 8 (findConsistentPairs g)) = Some c"
    and sf: "solution_from c = Some sol"
    by (auto simp: first_solution_def first_in_def split: option.splits)
  from f have mem: "c \<in> set (combos 8 (findConsistentPairs g))" and acc: "accepts s c"
    by (auto simp: find_Some_iff)
  from sf obtain a where a: "findGridAssignment c (replicate 16 None) = Some a"
    and sol: "sol = \<lparr>strip = buildStripFromPairs c, grid = a\<rparr>"
    by (auto simp: solution_from_def)
  from a obtain chosen where "valid_choice c chosen"
    using assignable_valid_choice [of c] by auto
  moreover have "matchesKnownValues (strip sol) s" using acc sol by (simp add: accepts_def)
  ultimately show ?thesis
    unfolding verified_solution_def using combos_members [OF mem] a sol
    by (intro exI [of _ c] exI [of _ chosen]) simp
qed

lemma solve_Some_verified:
  assumes "solve g s m = Some sol"
  shows "verified_solution g s sol"
proof -
  from assms have "first_solution (findConsistentPairs g) s = Some sol"
    using solve_first_solution [of g s m] by (auto split: if_splits)
  then show ?thesis by (rule first_solution_verified)
qed

lemma loop_skips_or_descends:
  assumes "solution_of st = None"
  shows "if \<forall>u\<in>set (uses p). cell_index (add u) \<in> usedIndices \<or> cell_index (mult u) \<in> usedIndices
         then backtrack_loop stripValues maxAttempts (p # rest) currentCombo usedIndices st =
              backtrack_loop stripValues maxAttempts rest currentCombo usedIndices st
         else \<exists>u\<in>set (uses p). cell_index (add u) \<notin> usedIndices \<and> cell_index (mult u) \<notin> usedIndices \<and>
              backtrack_loop stripValues maxAttempts (p # rest) currentCombo usedIndices st =
              backtrack_loop stripValues maxAttempts rest currentCombo usedIndices
                (backtrack stripValues maxAttempts rest (currentCombo @ [p])
                   (insert (cell_index (mult u)) (insert (cell_index (add u)) usedIndices)) st)"
proof (cases "available_use usedIndices (uses p)")
  case None
  then have "\<forall>u\<in>set (uses p). cell_index (add u) \<in> usedIndices \<or> cell_index (mult u) \<in> usedIndices"
    by (simp only: available_use_None)
  then show ?thesis using None assms by simp
next
  case (Some u)
  note u = available_use_Some [OF Some]
  then have "\<not> (\<forall>u\<in>set (uses p). cell_index (add u) \<in> usedIndices \<or> cell_index (mult u) \<in> usedIndices)"
    by blast
  moreover have "backtrack_loop stripValues maxAttempts (p # rest) currentCombo usedIndices st =
      backtrack_loop stripValues maxAttempts rest currentCombo usedIndices
        (backtrack stripValues maxAttempts rest (currentCombo @ [p])
           (insert (cell_index (mult u)) (insert (cell_index (add u)) usedIndices)) st)"
    using Some assms by simp
  ultimately show ?thesis using u by (simp only: if_False) blast
qed

text \<open>Runs of the model on the repository's grid.\<close>

lemma repo_candidates_length: "length (findConsistentPairs repo_grid) = 15"
  by code_simp

lemma repo_uses_of_6_24:
  "map (\<lambda>u. (cell_index (mult u), cell_index (add u))) (uses (repo_combo ! 2)) =
     [(5, 3), (5, 7), (5, 11)]"
  by code_simp

lemma repo_combo_length: "length repo_combo = 8"
  by code_simp

lemma repo_combo_matches: "matchesKnownValues (buildStripFromPairs repo_combo) repo_strip"
  by code_simp

lemma repo_choice_valid: "valid_choice repo_combo repo_choice"
  by code_simp

lemma repo_choice_differs:
  "repo_choice ! 2 \<noteq> hd (uses (repo_combo ! 2)) \<and>
   available_use {0, 8, 1, 6} (uses (repo_combo ! 2)) = Some (hd (uses (repo_combo ! 2)))"
  by code_simp

lemma run_repo: "solve repo_grid repo_strip 50000 = Some repo_solution"
  by code_simp

lemma repo_budget: "int (length (findConsistentPairs repo_grid) choose 8) \<le> 50000"
proof -
  have "(15 :: nat) choose 8 \<le> 2 ^ 15" by (rule binomial_le_pow2)
  then show ?thesis by (simp add: repo_candidates_length)
qed

text \<open>
  Claim C1. The cell-availability pruning never loses a valid solution. At a node of the
  search without a solution, a candidate is skipped exactly when every recorded use of
  it has its \<open>add\<close> or its \<open>mult\<close> index claimed; otherwise the search descends with that
  candidate. Whenever 8 of the extracted candidates (listed in candidate order) match
  the known strip positions and admit a grid assignment through some choice of their
  uses, whatever uses the descent committed to, \<open>solve\<close> returns a solution unless the
  counter passed \<open>maxAttempts\<close>, and a budget of at least the number of 8-element
  combinations of the candidate list is never passed. The solution returned is a
  verified one for this grid and strip: built from 8 candidates of the grid that match
  the strip and admit an assignment, with the grid that assignment yields.
\<close>

theorem pruning_keeps_solutions:
  assumes "subseq combo (findConsistentPairs gridNumbers)" and "length combo = 8"
    and "matchesKnownValues (buildStripFromPairs combo) stripValues"
    and "valid_choice combo chosen"
  shows "(available_use usedIndices (uses p) = None \<longleftrightarrow>
            (\<forall>u\<in>set (uses p).
               cell_index (add u) \<in> usedIndices \<or> cell_index (mult u) \<in> usedIndices)) \<and>
         (solution_of st = None \<longrightarrow>
            (if \<forall>u\<in>set (uses p).
                  cell_index (add u) \<in> usedIndices \<or> cell_index (mult u) \<in> usedIndices
             then backtrack_loop stripValues maxAttempts (p # rest) currentCombo usedIndices st =
                  backtrack_loop stripValues maxAttempts rest currentCombo usedIndices st
             else \<exists>u\<in>set (uses p).
                  cell_index (add u) \<notin> usedIndices \<and> cell_index (mult u) \<notin> usedIndices \<and>
                  backtrack_loop stripValues maxAttempts (p # rest) currentCombo usedIndices st =
                  backtrack_loop stripValues maxAttempts rest currentCombo usedIndices
                    (backtrack stripValues maxAttempts rest (currentCombo @ [p])
                       (insert (cell_index (mult u)) (insert (cell_index (add u)) usedIndices))
                       st))) \<and>
         ((\<exists>sol. solve gridNumbers stripValues maxAttempts = Some sol \<and>
                 verified_solution gridNumbers stripValues sol) \<or>
            tested (search (findConsistentPairs gridNumbers) stripValues maxAttempts) > maxAttempts) \<and>
         (int (length (findConsistentPairs gridNumbers) choose 8) \<le> maxAttempts \<longrightarrow>
            (\<exists>sol. solve gridNumbers stripValues maxAttempts = Some sol \<and>
                 verified_solution gridNumbers stripValues sol))"
proof -
  let ?r = "search (findConsistentPairs gridNumbers) stripValues maxAttempts"
  let ?found = "\<exists>sol. solve gridNumbers stripValues maxAttempts = Some sol \<and>
                 verified_solution gridNumbers stripValues sol"
  have fin: "finished maxAttempts ?r" using assms by (rule search_complete)
  have some: ?found if "solve gridNumbers stripValues maxAttempts \<noteq> None"
  proof -
    from that obtain sol where "solve gridNumbers stripValues maxAttempts = Some sol" by blast
    then show ?thesis using solve_Some_verified by blast
  qed
  from fin have a: "?found \<or> tested ?r > maxAttempts"
    using some by (auto simp: finished_def solve_None_iff)
  have b: ?found if "int (length (findConsistentPairs gridNumbers) choose 8) \<le> maxAttempts"
  proof -
    have "tested ?r \<le> maxAttempts"
      using search_tested_nodes [of "findConsistentPairs gridNumbers" stripValues maxAttempts] that
      by linarith
    with a show ?thesis by simp
  qed
  have c: "solution_of st = None \<longrightarrow>
            (if \<forall>u\<in>set (uses p).
                  cell_index (add u) \<in> usedIndices \<or> cell_index (mult u) \<in> usedIndices
             then backtrack_loop stripValues maxAttempts (p # rest) currentCombo usedIndices st =
                  backtrack_loop stripValues maxAttempts rest currentCombo usedIndices st
             else \<exists>u\<in>set (uses p).
                  cell_index (add u) \<notin> usedIndices \<and> cell_index (mult u) \<notin> usedIndices \<and>
                  backtrack_loop stripValues maxAttempts (p # rest) currentCombo usedIndices st =
                  backtrack_loop stripValues maxAttempts rest currentCombo usedIndices
                    (backtrack stripValues maxAttempts rest (currentCombo @ [p])
                       (insert (cell_index (mult u)) (insert (cell_index (add u)) usedIndices))
                       st))"
    using loop_skips_or_descends by blast
  from a b c available_use_None [of usedIndices "uses p"] show ?thesis by blast
qed

theorem pruning_keeps_solutions_witness:
  "subseq repo_combo (findConsistentPairs repo_grid) \<and> length repo_combo = 8 \<and>
   matchesKnownValues (buildStripFromPairs repo_combo) repo_strip \<and>
   valid_choice repo_combo repo_choice \<and>
   repo_choice ! 2 \<noteq> hd (uses (repo_combo ! 2)) \<and>
   available_use {0, 8, 1, 6} (uses (repo_combo ! 2)) = Some (hd (uses (repo_combo ! 2))) \<and>
   int (length (findConsistentPairs repo_grid) choose 8) \<le> 50000 \<and>
   solve repo_grid repo_strip 50000 = Some repo_solution \<and>
   verified_solution repo_grid repo_strip repo_solution"
proof -
  have sub: "subseq repo_combo (findConsistentPairs repo_grid)"
    by (simp add: repo_combo_def)
  from pruning_keeps_solutions
    [OF sub repo_combo_length repo_combo_matches repo_choice_valid, where maxAttempts = 50000]
    repo_budget
  have "\<exists>sol. solve repo_grid repo_strip 50000 = Some sol \<and>
      verified_solution repo_grid repo_strip sol" by blast
  then have "verified_solution repo_grid repo_strip repo_solution" by (simp add: run_repo)
  with sub repo_combo_length repo_combo_matches repo_choice_valid repo_choice_differs
    repo_budget run_repo
  show ?thesis by blast
qed

text \<open>
  Claim C8. Determinism. Nothing but the three arguments decides the result of a call,
  and the orders in which the source works are fixed. The candidate list is the list of
  recorded pairs in the order of their first encounter by the three nested loops, each
  with its uses in loop order. The search returns the solution of the first combination,
  in the order of a strictly increasing cursor over that list, that matches the strip
  and admits a grid assignment, or \<open>null\<close> when there is none or when the counter passed
  the budget; a budget of at least the number of combinations is never passed. So a second
  call with identical arguments returns what the first returned.
\<close>

theorem solve_deterministic:
  assumes "gridNumbers' = gridNumbers" "stripValues' = stripValues" "maxAttempts' = maxAttempts"
  shows "findConsistentPairs gridNumbers' = group_events (extraction_events gridNumbers) \<and>
         solve gridNumbers' stripValues' maxAttempts' =
           (if over_budget maxAttempts
                 (search (group_events (extraction_events gridNumbers)) stripValues maxAttempts)
            then None
            else first_solution (group_events (extraction_events gridNumbers)) stripValues) \<and>
         (int (length (group_events (extraction_events gridNumbers)) choose 8) \<le> maxAttempts \<longrightarrow>
            solve gridNumbers' stripValues' maxAttempts' =
              first_solution (group_events (extraction_events gridNumbers)) stripValues) \<and>
         solve gridNumbers' stripValues' maxAttempts' = solve gridNumbers stripValues maxAttempts"
proof -
  let ?cs = "group_events (extraction_events gridNumbers)"
  have cs: "findConsistentPairs gridNumbers = ?cs" by (rule findConsistentPairs_grouped)
  have a: "solve gridNumbers stripValues maxAttempts =
      (if over_budget maxAttempts (search ?cs stripValues maxAttempts) then None
       else first_solution ?cs stripValues)"
    using solve_first_solution [of gridNumbers stripValues maxAttempts] by (simp only: cs)
  have b: "solve gridNumbers stripValues maxAttempts = first_solution ?cs stripValues"
    if "int (length ?cs choose 8) \<le> maxAttempts"
    using a within_budget [OF that, of stripValues] by simp
  from a b cs show ?thesis unfolding assms by blast
qed

theorem solve_deterministic_witness:
  "repo_grid = repo_grid \<and> repo_strip = repo_strip \<and> (50000 :: int) = 50000 \<and>
   findConsistentPairs repo_grid = group_events (extraction_events repo_grid) \<and>
   int (length (group_events (extraction_events repo_grid)) choose 8) \<le> 50000 \<and>
   solve repo_grid repo_strip 50000 = Some repo_solution \<and>
   first_solution (group_events (extraction_events repo_grid)) repo_strip = Some repo_solution"
proof -
  note d = solve_deterministic [of repo_grid repo_grid repo_strip repo_strip 50000 50000]
  from d have cs: "findConsistentPairs repo_grid = group_events (extraction_events repo_grid)"
    by simp
  have small: "int (length (group_events (extraction_events repo_grid)) choose 8) \<le> 50000"
    using repo_budget by (simp only: cs)
  from d small have "solve repo_grid repo_strip 50000 =
      first_solution (group_events (extraction_events repo_grid)) repo_strip" by blast
  then have "first_solution (group_events (extraction_events repo_grid)) repo_strip =
      Some repo_solution" by (simp only: run_repo)
  with cs small run_repo show ?thesis by blast
qed

end
